theory Spec2Isabelle
  imports Complex_Main "HOL-Library.AList"
begin

section \<open>Sprint calendar visualizer: the schedule parser\<close>

text \<open>
  The program is \<^verbatim>\<open>streamlit_app.py\<close>: \<^verbatim>\<open>parse_sprint_data\<close> turns the pasted text into
  a data frame of sprints, \<^verbatim>\<open>generate_wall_calendar\<close> draws one table per month and paints
  the day cells. Python strings are modelled as \<^typ>\<open>string\<close>, one \<^typ>\<open>char\<close> per code
  point below 256.
\<close>

subsection \<open>Python string primitives\<close>

text \<open>
  \<^verbatim>\<open>str.isspace\<close> on one character: the code points below 256 that Python treats as
  white space are 9 to 13, 28 to 32, 133 and 160.
\<close>

definition isspace :: "char \<Rightarrow> bool" where
  "isspace c =
     (let n = (of_char c :: nat)
      in (9 \<le> n \<and> n \<le> 13) \<or> (28 \<le> n \<and> n \<le> 32) \<or> n = 133 \<or> n = 160)"

text \<open>\<^verbatim>\<open>s.strip()\<close>: leading and trailing white space removed.\<close>

definition strip :: "string \<Rightarrow> string" where
  "strip s = rev (dropWhile isspace (rev (dropWhile isspace s)))"

text \<open>\<^verbatim>\<open>s.split(sep)\<close> for a one-character separator: always at least one piece.\<close>

fun split_on :: "char \<Rightarrow> string \<Rightarrow> string list" where
  "split_on sep [] = [[]]"
| "split_on sep (x # xs) =
     (if x = sep then [] # split_on sep xs
      else (case split_on sep xs of
              [] \<Rightarrow> [[x]]
            | p # ps \<Rightarrow> (x # p) # ps))"

text \<open>
  \<^verbatim>\<open>s.split()\<close>: the maximal runs of characters that are not white space, in order.
  \<open>cur\<close> is the token being read.
\<close>

fun split_ws_from :: "string \<Rightarrow> string \<Rightarrow> string list" where
  "split_ws_from cur [] = (if cur = [] then [] else [cur])"
| "split_ws_from cur (x # xs) =
     (if isspace x
      then (if cur = [] then split_ws_from [] xs else cur # split_ws_from [] xs)
      else split_ws_from (cur @ [x]) xs)"

definition split :: "string \<Rightarrow> string list" where
  "split s = split_ws_from [] s"

definition newline :: char where
  "newline = CHR 0x0A"

subsection \<open>Dates and sprint records\<close>

text \<open>
  A calendar date, and what \<^verbatim>\<open>pd.to_datetime\<close> can return: a Timestamp, or the missing value
  \<^verbatim>\<open>NaT\<close>. The renderer reads a Timestamp only through \<^verbatim>\<open>.year\<close>, \<^verbatim>\<open>.month\<close>, \<^verbatim>\<open>.date()\<close>
  and through \<^verbatim>\<open>min\<close>/\<^verbatim>\<open>max\<close>, whose order refines the order of the calendar dates, so a
  Timestamp is represented by its calendar date.
\<close>

record date =
  year :: int
  month :: int
  day :: int

datatype datetime = NaT | Timestamp date

text \<open>
  A row of the data frame. The parser stores what \<^verbatim>\<open>pd.to_datetime\<close> returned without looking
  at it, so a row is modelled for any type \<open>'d\<close> of such values: \<^typ>\<open>datetime\<close> for the
  parser as pandas runs it, \<^typ>\<open>date\<close> for a frame all of whose dates are Timestamps, which
  is what the renderer is modelled on.
\<close>

record 'd sprint_row =
  Sprint :: string
  Start_Date :: 'd
  End_Date :: 'd

type_synonym sprint = "date sprint_row"

type_synonym dataframe = "sprint list"

datatype error = ParseError string | ZeroDivisionError

subsection \<open>\<^verbatim>\<open>parse_sprint_data\<close>\<close>

text \<open>
  \<^verbatim>\<open>pd.to_datetime\<close> is a library function and is taken as the parameter \<open>to_datetime\<close>:
  \<open>None\<close> when it raises on the token, \<open>Some v\<close> when it returns the value \<open>v\<close> (for pandas
  a Timestamp or, on tokens such as \<^verbatim>\<open>NaT\<close> and \<^verbatim>\<open>nan\<close>, the missing value \<^verbatim>\<open>NaT\<close>, without
  raising). The raised error is recorded as \<open>ParseError\<close> of the offending token.
  Time-zone-aware results are outside this model.
\<close>

definition lines_of :: "string \<Rightarrow> string list" where
  "lines_of text = map strip (filter (\<lambda>line. strip line \<noteq> []) (split_on newline (strip text)))"

definition data_lines :: "string \<Rightarrow> string list" where
  "data_lines text = tl (lines_of text)"

text \<open>The loop over \<^verbatim>\<open>data_lines\<close>; \<open>sprints\<close> is the list being appended to.\<close>

fun parse_loop ::
  "(string \<Rightarrow> 'd option) \<Rightarrow> 'd sprint_row list \<Rightarrow> string list \<Rightarrow> error + 'd sprint_row list" where
  "parse_loop to_datetime sprints [] = Inr sprints"
| "parse_loop to_datetime sprints (line # rest) =
     (let parts = split line in
      if length parts \<ge> 3 then
        (let sprint_name = parts ! 0; start_date = parts ! 1; end_date = parts ! 2 in
         case to_datetime start_date of
           None \<Rightarrow> Inl (ParseError start_date)
         | Some s \<Rightarrow>
             (case to_datetime end_date of
                None \<Rightarrow> Inl (ParseError end_date)
              | Some e \<Rightarrow>
                  parse_loop to_datetime
                    (sprints @ [\<lparr>Sprint = sprint_name, Start_Date = s, End_Date = e\<rparr>]) rest))
      else parse_loop to_datetime sprints rest)"

definition parse_sprint_data :: "(string \<Rightarrow> 'd option) \<Rightarrow> string \<Rightarrow> error + 'd sprint_row list" where
  "parse_sprint_data to_datetime text = parse_loop to_datetime [] (data_lines text)"

section \<open>The calendar renderer\<close>

subsection \<open>Python's \<^verbatim>\<open>calendar\<close> and \<^verbatim>\<open>datetime\<close> modules\<close>

text \<open>
  \<^verbatim>\<open>calendar.monthcalendar(year, month)\<close> with the default first weekday (Monday, 0), as the
  standard library computes it: the proleptic Gregorian ordinal of a date, the weekday
  \<open>(ordinal + 6) % 7\<close>, and the month's days padded with zeros to whole weeks.
  Python's \<^verbatim>\<open>//\<close> and \<^verbatim>\<open>%\<close> are \<open>div\<close> and \<open>mod\<close> on \<^typ>\<open>int\<close>.
  The library raises on a month outside 1..12; \<^verbatim>\<open>generate_wall_calendar\<close> asks only for
  months it enumerated from the months of two dates, which are in 1..12.
\<close>

definition isleap :: "int \<Rightarrow> bool" where
  "isleap y = (y mod 4 = 0 \<and> (y mod 100 \<noteq> 0 \<or> y mod 400 = 0))"

definition mdays :: "int \<Rightarrow> int" where
  "mdays m = (if m = 2 then 28 else if m = 4 \<or> m = 6 \<or> m = 9 \<or> m = 11 then 30 else 31)"

definition days_before_year :: "int \<Rightarrow> int" where
  "days_before_year y = (let y1 = y - 1 in y1 * 365 + y1 div 4 - y1 div 100 + y1 div 400)"

definition days_before_month :: "int \<Rightarrow> int \<Rightarrow> int" where
  "days_before_month y m =
     [0, 31, 59, 90, 120, 151, 181, 212, 243, 273, 304, 334] ! nat (m - 1)
       + (if m > 2 \<and> isleap y then 1 else 0)"

definition ymd2ord :: "int \<Rightarrow> int \<Rightarrow> int \<Rightarrow> int" where
  "ymd2ord y m d = days_before_year y + days_before_month y m + d"

text \<open>\<^verbatim>\<open>calendar.weekday\<close>: Monday is 0, Saturday 5, Sunday 6.\<close>

definition weekday :: "int \<Rightarrow> int \<Rightarrow> int \<Rightarrow> int" where
  "weekday y m d =
     (let y' = (if 1 \<le> y \<and> y \<le> 9999 then y else 2000 + y mod 400)
      in (ymd2ord y' m d + 6) mod 7)"

definition monthrange :: "int \<Rightarrow> int \<Rightarrow> int \<times> int" where
  "monthrange y m = (weekday y m 1, mdays m + (if m = 2 \<and> isleap y then 1 else 0))"

definition itermonthdays :: "int \<Rightarrow> int \<Rightarrow> int list" where
  "itermonthdays y m =
     (let (day1, ndays) = monthrange y m;
          days_before = (day1 - 0) mod 7;
          days_after = (0 - day1 - ndays) mod 7
      in replicate (nat days_before) 0 @ [1..ndays] @ replicate (nat days_after) 0)"

text \<open>\<^verbatim>\<open>[days[i:i+7] for i in range(0, len(days), 7)]\<close>\<close>

function weeks_of :: "int list \<Rightarrow> int list list" where
  "weeks_of days = (if days = [] then [] else take 7 days # weeks_of (drop 7 days))"
  by pat_completeness auto
termination
  by (relation "measure length") auto

definition monthcalendar :: "int \<Rightarrow> int \<Rightarrow> int list list" where
  "monthcalendar y m = weeks_of (itermonthdays y m)"

text \<open>\<^verbatim>\<open>calendar.month_name[month]\<close> (English locale).\<close>

definition month_name :: "int \<Rightarrow> string" where
  "month_name m =
     ['''', ''January'', ''February'', ''March'', ''April'', ''May'', ''June'', ''July'',
      ''August'', ''September'', ''October'', ''November'', ''December''] ! nat m"

text \<open>\<^verbatim>\<open>str\<close> on an integer: decimal digits, a minus sign when negative.\<close>

fun str_nat :: "nat \<Rightarrow> string" where
  "str_nat n = (if n < 10 then [char_of (48 + n)] else str_nat (n div 10) @ [char_of (48 + n mod 10)])"

definition str :: "int \<Rightarrow> string" where
  "str i = (if i < 0 then CHR ''-'' # str_nat (nat (- i)) else str_nat (nat i))"

text \<open>The order of \<^verbatim>\<open>datetime.date\<close> and of Python tuples: lexicographic.\<close>

definition date_le :: "date \<Rightarrow> date \<Rightarrow> bool" where
  "date_le a b =
     (year a < year b \<or>
      (year a = year b \<and> (month a < month b \<or> (month a = month b \<and> day a \<le> day b))))"

definition pair_le :: "int \<times> int \<Rightarrow> int \<times> int \<Rightarrow> bool" where
  "pair_le a b = (fst a < fst b \<or> (fst a = fst b \<and> snd a \<le> snd b))"

text \<open>
  \<^verbatim>\<open>Series.min()\<close> and \<^verbatim>\<open>Series.max()\<close> on a column of dates; the column is not empty where
  the renderer calls them.
\<close>

fun series_min :: "date list \<Rightarrow> date" where
  "series_min (d # ds) = fold (\<lambda>x m. if date_le m x then m else x) ds d"

fun series_max :: "date list \<Rightarrow> date" where
  "series_max (d # ds) = fold (\<lambda>x m. if date_le x m then m else x) ds d"

subsection \<open>The months to display\<close>

text \<open>
  The \<^verbatim>\<open>while\<close> loop of \<^verbatim>\<open>generate_wall_calendar\<close>; the loop state is
  \<open>(current_year, current_month)\<close> and the list built so far.
\<close>

function months_loop :: "int \<times> int \<Rightarrow> int \<Rightarrow> int \<Rightarrow> (int \<times> int) list \<Rightarrow> (int \<times> int) list" where
  "months_loop end_month current_year current_month months_to_display =
     (if pair_le (current_year, current_month) end_month then
        (if current_month + 1 > 12
         then months_loop end_month (current_year + 1) 1
                (months_to_display @ [(current_year, current_month)])
         else months_loop end_month current_year (current_month + 1)
                (months_to_display @ [(current_year, current_month)]))
      else months_to_display)"
  by pat_completeness auto
termination
  by (relation "measures [\<lambda>(e, cy, cm, ms). nat (fst e + 1 - cy), \<lambda>(e, cy, cm, ms). nat (12 - cm)]")
     (auto simp: pair_le_def)

definition start_month :: "dataframe \<Rightarrow> int \<times> int" where
  "start_month df = (let min_date = series_min (map Start_Date df) in (year min_date, month min_date))"

definition end_month :: "dataframe \<Rightarrow> int \<times> int" where
  "end_month df = (let max_date = series_max (map End_Date df) in (year max_date, month max_date))"

definition months_to_display :: "dataframe \<Rightarrow> (int \<times> int) list" where
  "months_to_display df = months_loop (end_month df) (fst (start_month df)) (snd (start_month df)) []"

subsection \<open>Colours\<close>

text \<open>
  A palette colour is an RGBA tuple with channels in \<open>[0, 1]\<close>; a cell's face or text
  colour is either a matplotlib colour name or such a tuple. Channels are rationals
  (the table of \<^verbatim>\<open>tab10\<close> is given in 255ths).
\<close>

type_synonym rgba = "rat \<times> rat \<times> rat \<times> rat"

datatype color = Named string | RGBA rgba

definition tab10_data :: "rgba list" where
  "tab10_data =
     [(31 / 255, 119 / 255, 180 / 255, 1),
      (255 / 255, 127 / 255, 14 / 255, 1),
      (44 / 255, 160 / 255, 44 / 255, 1),
      (214 / 255, 39 / 255, 40 / 255, 1),
      (148 / 255, 103 / 255, 189 / 255, 1),
      (140 / 255, 86 / 255, 75 / 255, 1),
      (227 / 255, 119 / 255, 194 / 255, 1),
      (127 / 255, 127 / 255, 127 / 255, 1),
      (188 / 255, 189 / 255, 34 / 255, 1),
      (23 / 255, 190 / 255, 207 / 255, 1)]"

text \<open>
  The palette positions are computed in 64-bit floating point, and which table entry a
  position selects depends on the rounding (with 36 sprints, \<open>7 * (1 / 35) * 10\<close> is just
  below 2). \<open>float64 x\<close> is the double nearest to the rational \<open>x\<close>: 53 significant bits,
  ties to the even mantissa. For a positive \<open>x = p / q\<close> in lowest terms, with \<open>bit_length\<close>
  Python's \<^verbatim>\<open>int.bit_length\<close>, \<open>x\<close> lies between \<open>2 ^ (e0 - 1)\<close> and \<open>2 ^ (e0 + 1)\<close>, which
  gives its binary exponent \<open>e\<close>; the mantissa is \<open>x * 2 ^ (52 - e)\<close> rounded to an integer.
  Overflow and subnormal numbers do not arise for the values below (at most 10, and at
  least \<open>1 / (n - 1)\<close> for a frame of \<open>n\<close> rows).
\<close>

function bit_length :: "int \<Rightarrow> int" where
  "bit_length n = (if n \<le> 0 then 0 else 1 + bit_length (n div 2))"
  by pat_completeness auto
termination
  by (relation "measure nat") auto

definition pow2 :: "int \<Rightarrow> rat" where
  "pow2 k = (if 0 \<le> k then 2 ^ nat k else 1 / 2 ^ nat (- k))"

definition round_half_even :: "rat \<Rightarrow> int" where
  "round_half_even y =
     (let f = \<lfloor>y\<rfloor>; r = y - of_int f
      in if r < 1 / 2 then f else if 1 / 2 < r then f + 1 else if even f then f else f + 1)"

definition float64_pos :: "rat \<Rightarrow> rat" where
  "float64_pos x =
     (let (p, q) = quotient_of x;
          e0 = bit_length p - bit_length q;
          e = (if pow2 e0 \<le> x then e0 else e0 - 1)
      in of_int (round_half_even (x * pow2 (52 - e))) * pow2 (e - 52))"

definition float64 :: "rat \<Rightarrow> rat" where
  "float64 x = (if x = 0 then 0 else if x < 0 then - float64_pos (- x) else float64_pos x)"

text \<open>
  \<^verbatim>\<open>np.linspace(0, 1, n)\<close>: \<open>step = 1 / (n - 1)\<close> is rounded, point \<open>i\<close> is the rounded product
  \<open>i * step\<close>, the last point is set to 1 exactly, and the single point is 0 when \<open>n = 1\<close>.
  \<^verbatim>\<open>plt.cm.tab10(x)\<close> for \<open>x\<close> in \<open>[0, 1]\<close>: the rounded product \<open>x * 10\<close> is truncated to
  the index of the table entry, and 10 selects the last entry.
\<close>

definition tab10 :: "rat \<Rightarrow> rgba" where
  "tab10 x = tab10_data ! (let xa = float64 (x * 10) in if xa = 10 then 9 else nat \<lfloor>xa\<rfloor>)"

definition linspace01 :: "nat \<Rightarrow> rat list" where
  "linspace01 n =
     map (\<lambda>i. if n = 1 then 0
              else if i = n - 1 then 1
              else float64 (of_nat i * float64 (1 / of_nat (n - 1)))) [0..<n]"

definition palette :: "nat \<Rightarrow> rgba list" where
  "palette n = map tab10 (linspace01 n)"

text \<open>
  \<^verbatim>\<open>np.mean(c[:3])\<close>, in exact arithmetic: the colours are entries of the table, and none
  of their means is within a rounding error of the threshold 0.5.
\<close>

fun mean_rgb :: "rgba \<Rightarrow> rat" where
  "mean_rgb (r, g, b, a) = (r + g + b) / 3"

text \<open>
  The dict comprehension \<^verbatim>\<open>{row['Sprint']: colors[i] for i, (_, row) in enumerate(df.iterrows())}\<close>:
  a Python dict keeps a key at the place of its first insertion and the value of its last,
  which is \<^const>\<open>AList.update\<close> on an association list.
\<close>

definition sprint_colors_of :: "rgba list \<Rightarrow> dataframe \<Rightarrow> (string \<times> rgba) list" where
  "sprint_colors_of colors df =
     fold (\<lambda>(i, row) d. AList.update (Sprint row) (colors ! i) d) (enumerate 0 df) []"

subsection \<open>Tables, axes and the figure\<close>

text \<open>
  A table is matplotlib's dict of cells keyed by \<open>(row, column)\<close>. A fresh cell has the
  face colour \<^verbatim>\<open>'w'\<close> and the default text colour \<^verbatim>\<open>'black'\<close>. Every key the renderer
  indexes the table with was created from \<^verbatim>\<open>cell_text\<close> (lemmas \<open>new_table_cell\<close> and
  \<open>monthcalendar_week_length\<close> below), every sprint name is a key of \<^verbatim>\<open>sprint_colors\<close>
  (\<open>sprint_colors_defined\<close>) and \<^verbatim>\<open>colors\<close> has one entry per row (\<open>palette_length\<close>), so
  no lookup raises; the setters below leave a table without the key unchanged.
\<close>

record cell =
  label :: string
  bold :: bool
  facecolor :: color
  text_color :: color

type_synonym table = "nat \<times> nat \<Rightarrow> cell option"

definition new_table :: "string list list \<Rightarrow> table" where
  "new_table cell_text =
     (\<lambda>(r, c). if r < length cell_text \<and> c < length (cell_text ! r)
               then Some \<lparr>label = cell_text ! r ! c, bold = False,
                           facecolor = Named ''w'', text_color = Named ''black''\<rparr>
               else None)"

definition set_facecolor :: "nat \<times> nat \<Rightarrow> color \<Rightarrow> table \<Rightarrow> table" where
  "set_facecolor k col t = t(k := map_option (\<lambda>c. c\<lparr>facecolor := col\<rparr>) (t k))"

definition set_color :: "nat \<times> nat \<Rightarrow> color \<Rightarrow> table \<Rightarrow> table" where
  "set_color k col t = t(k := map_option (\<lambda>c. c\<lparr>text_color := col\<rparr>) (t k))"

definition set_bold :: "nat \<times> nat \<Rightarrow> table \<Rightarrow> table" where
  "set_bold k t = t(k := map_option (\<lambda>c. c\<lparr>bold := True\<rparr>) (t k))"

definition day_names :: "string list" where
  "day_names = [''Mon'', ''Tue'', ''Wed'', ''Thu'', ''Fri'', ''Sat'', ''Sun'']"

definition make_cell_text :: "int list list \<Rightarrow> string list list" where
  "make_cell_text cal = day_names # map (map (\<lambda>day. if day = 0 then [] else str day)) cal"

definition style_header :: "table \<Rightarrow> table" where
  "style_header t = fold (\<lambda>j t. set_facecolor (0, j) (Named ''#e6e6e6'') (set_bold (0, j) t)) [0..<7] t"

definition highlight_weekends :: "string list list \<Rightarrow> table \<Rightarrow> table" where
  "highlight_weekends cell_text t =
     fold (\<lambda>week_idx t.
             fold (\<lambda>day_idx t.
                     if cell_text ! week_idx ! day_idx \<noteq> []
                     then set_facecolor (week_idx, day_idx) (Named ''#f2f2f2'') t
                     else t)
               [5, 6] t)
       [1..<length cell_text] t"

text \<open>The body of the innermost loop: one day cell of one week, for one sprint.\<close>

definition paint_day ::
  "(string \<times> rgba) list \<Rightarrow> int \<Rightarrow> int \<Rightarrow> sprint \<Rightarrow> nat \<Rightarrow> nat \<times> int \<Rightarrow> table \<Rightarrow> table" where
  "paint_day sprint_colors y m sprint week_idx p t =
     (let day_idx = fst p; day = snd p in
      if day = 0 then t
      else
        (let current_date = \<lparr>year = y, month = m, day = day\<rparr> in
         if date_le (Start_Date sprint) current_date \<and> date_le current_date (End_Date sprint)
         then
           (let c = the (map_of sprint_colors (Sprint sprint));
                t = set_facecolor (week_idx, day_idx) (RGBA c) t
            in if mean_rgb c < 1 / 2
               then set_color (week_idx, day_idx) (Named ''white'') t
               else t)
         else t))"

definition paint_sprint ::
  "(string \<times> rgba) list \<Rightarrow> int \<Rightarrow> int \<Rightarrow> int list list \<Rightarrow> sprint \<Rightarrow> table \<Rightarrow> table" where
  "paint_sprint sprint_colors y m cal sprint t =
     fold (\<lambda>(week_idx, week) t.
             fold (paint_day sprint_colors y m sprint week_idx) (enumerate 0 week) t)
       (enumerate 1 cal) t"

definition paint_sprints ::
  "(string \<times> rgba) list \<Rightarrow> int \<Rightarrow> int \<Rightarrow> int list list \<Rightarrow> dataframe \<Rightarrow> table \<Rightarrow> table" where
  "paint_sprints sprint_colors y m cal df t = fold (paint_sprint sprint_colors y m cal) df t"

record axes =
  ax_title :: string
  ax_month :: "int \<times> int"
  ax_position :: "nat \<times> nat"
  ax_table :: table

text \<open>
  The body of the loop over \<^verbatim>\<open>months_to_display\<close>: the subplot of month \<open>i\<close>.
  \<open>ax_month\<close> records the loop variables \<open>(year, month)\<close> the subplot was drawn for.
\<close>

definition draw_month ::
  "dataframe \<Rightarrow> (string \<times> rgba) list \<Rightarrow> nat \<Rightarrow> nat \<times> (int \<times> int) \<Rightarrow> axes" where
  "draw_month df sprint_colors cols p =
     (let i = fst p; y = fst (snd p); m = snd (snd p);
          cal = monthcalendar y m;
          cell_text = make_cell_text cal;
          t = new_table cell_text;
          t = style_header t;
          t = highlight_weekends cell_text t;
          t = paint_sprints sprint_colors y m cal df t
      in \<lparr>ax_title = month_name m @ '' '' @ str y, ax_month = (y, m),
           ax_position = (i div cols, i mod cols), ax_table = t\<rparr>)"

record figure =
  figsize :: "nat \<times> nat"
  fig_axes :: "axes list"
  legend :: "(string \<times> rgba) list"
  legend_ncol :: nat

subsection \<open>\<^verbatim>\<open>generate_wall_calendar\<close>\<close>

text \<open>
  \<open>Inr None\<close> is the early \<^verbatim>\<open>return None\<close>, \<open>Inr (Some fig)\<close> the returned figure, and
  \<open>Inl ZeroDivisionError\<close> the integer division by \<open>cols = 0\<close> that Python raises when no
  month was enumerated.
\<close>

definition generate_wall_calendar :: "dataframe \<Rightarrow> error + figure option" where
  "generate_wall_calendar df =
     (if df = [] then Inr None
      else
        (let months = months_to_display df;
             num_months = length months;
             cols = min 3 num_months
         in if cols = 0 then Inl ZeroDivisionError
            else
              (let rows = (num_months + cols - 1) div cols;
                   colors = palette (length df);
                   sprint_colors = sprint_colors_of colors df;
                   axs = map (draw_month df sprint_colors cols) (enumerate 0 months)
               in Inr (Some \<lparr>figsize = (5 * cols, 4 * rows), fig_axes = axs,
                              legend = sprint_colors,
                              legend_ncol = min 5 (length sprint_colors)\<rparr>))))"

section \<open>Auxiliary definitions for the statements\<close>

text \<open>
  The non-blank lines of a text without the outer \<^verbatim>\<open>strip\<close>; \<open>lines_of_raw\<close> below shows
  that the outer \<^verbatim>\<open>strip\<close> of \<^verbatim>\<open>parse_sprint_data\<close> changes nothing.
\<close>

definition raw_lines :: "string \<Rightarrow> string list" where
  "raw_lines t = map strip (filter (\<lambda>line. strip line \<noteq> []) (split_on newline t))"

text \<open>
  An instance of \<open>to_datetime\<close> for the examples: it accepts four ISO dates of March 2025
  and raises on every other token.
\<close>

definition example_to_datetime :: "string \<Rightarrow> date option" where
  "example_to_datetime s =
     (if s = ''2025-03-10'' then Some \<lparr>year = 2025, month = 3, day = 10\<rparr>
      else if s = ''2025-03-17'' then Some \<lparr>year = 2025, month = 3, day = 17\<rparr>
      else if s = ''2025-03-21'' then Some \<lparr>year = 2025, month = 3, day = 21\<rparr>
      else if s = ''2025-03-28'' then Some \<lparr>year = 2025, month = 3, day = 28\<rparr>
      else None)"

text \<open>
  The same instance with the missing value, as pandas behaves on these tokens: on \<^verbatim>\<open>NaT\<close>
  and \<^verbatim>\<open>nan\<close> it returns \<^verbatim>\<open>NaT\<close> without raising, on the four ISO dates a Timestamp, and it
  raises on every other token.
\<close>

definition example_pandas :: "string \<Rightarrow> datetime option" where
  "example_pandas s =
     (if s = ''NaT'' \<or> s = ''nan'' then Some NaT
      else map_option Timestamp (example_to_datetime s))"

text \<open>
  A token is a recognizable calendar date, in the words of the specification, when
  \<open>to_datetime\<close> returns a Timestamp on it.
\<close>

definition recognizable :: "(string \<Rightarrow> datetime option) \<Rightarrow> string \<Rightarrow> bool" where
  "recognizable to_datetime tok =
     (case to_datetime tok of Some (Timestamp d) \<Rightarrow> True | _ \<Rightarrow> False)"

text \<open>
  Months counted from year 0: month \<open>m\<close> of year \<open>y\<close> has the index \<open>12 * y + m - 1\<close>, so
  that the next calendar month, across a year's end too, has the next index.
\<close>

definition month_of_index :: "int \<Rightarrow> int \<times> int" where
  "month_of_index k = (k div 12, k mod 12 + 1)"

definition index_of_month :: "int \<times> int \<Rightarrow> int" where
  "index_of_month p = 12 * fst p + snd p - 1"

text \<open>The months of the dates \<^verbatim>\<open>pd.to_datetime\<close> returns are in 1..12.\<close>

definition valid_months :: "dataframe \<Rightarrow> bool" where
  "valid_months df =
     list_all (\<lambda>r. 1 \<le> month (Start_Date r) \<and> month (Start_Date r) \<le> 12 \<and>
                    1 \<le> month (End_Date r) \<and> month (End_Date r) \<le> 12) df"

text \<open>
  The test of the innermost loop: the date lies in the sprint's inclusive range
  \<^verbatim>\<open>sprint_start.date() <= current_date <= sprint_end.date()\<close>.
\<close>

definition in_sprint :: "sprint \<Rightarrow> date \<Rightarrow> bool" where
  "in_sprint s D = (date_le (Start_Date s) D \<and> date_le D (End_Date s))"

text \<open>
  What one paint does to a cell (\<^verbatim>\<open>set_facecolor\<close>, then \<^verbatim>\<open>set_color('white')\<close> when the
  colour is dark), and what the loop over the sprints does to the cell of one date.
\<close>

definition paint_cell :: "rgba \<Rightarrow> cell \<Rightarrow> cell" where
  "paint_cell c x =
     (if mean_rgb c < 1 / 2 then x\<lparr>facecolor := RGBA c, text_color := Named ''white''\<rparr>
      else x\<lparr>facecolor := RGBA c\<rparr>)"

definition paint_steps :: "(string \<times> rgba) list \<Rightarrow> date \<Rightarrow> dataframe \<Rightarrow> cell \<Rightarrow> cell" where
  "paint_steps sc D df x =
     fold (\<lambda>s x. if in_sprint s D then paint_cell (the (map_of sc (Sprint s))) x else x) df x"

text \<open>A day cell before the sprints are painted: column 5 and 6 carry the weekend fill.\<close>

definition base_cell :: "nat \<Rightarrow> int \<Rightarrow> cell" where
  "base_cell c d =
     \<lparr>label = str d, bold = False,
      facecolor = (if c = 5 \<or> c = 6 then Named ''#f2f2f2'' else Named ''w''),
      text_color = Named ''black''\<rparr>"

text \<open>
  The text colour as the specification proposes to compute it: the contrast check applied
  once, to the colour of the last sprint that covers the date (default text colour when
  no sprint covers it).
\<close>

definition text_color_once :: "(string \<times> rgba) list \<Rightarrow> date \<Rightarrow> dataframe \<Rightarrow> color" where
  "text_color_once sc D df =
     (case rev (filter (\<lambda>s. in_sprint s D) df) of
        [] \<Rightarrow> Named ''black''
      | winner # others \<Rightarrow>
          if mean_rgb (the (map_of sc (Sprint winner))) < 1 / 2
          then Named ''white'' else Named ''black'')"

text \<open>Example data frames.\<close>

definition december_january :: dataframe where
  "december_january =
     [\<lparr>Sprint = ''A'', Start_Date = \<lparr>year = 2024, month = 12, day = 20\<rparr>,
       End_Date = \<lparr>year = 2025, month = 1, day = 10\<rparr>\<rparr>,
      \<lparr>Sprint = ''B'', Start_Date = \<lparr>year = 2024, month = 12, day = 27\<rparr>,
       End_Date = \<lparr>year = 2025, month = 1, day = 3\<rparr>\<rparr>]"

definition overlapping :: dataframe where
  "overlapping =
     [\<lparr>Sprint = ''A'', Start_Date = \<lparr>year = 2025, month = 3, day = 10\<rparr>,
       End_Date = \<lparr>year = 2025, month = 3, day = 21\<rparr>\<rparr>,
      \<lparr>Sprint = ''B'', Start_Date = \<lparr>year = 2025, month = 3, day = 17\<rparr>,
       End_Date = \<lparr>year = 2025, month = 3, day = 28\<rparr>\<rparr>]"

definition same_names :: dataframe where
  "same_names =
     [\<lparr>Sprint = ''A'', Start_Date = \<lparr>year = 2025, month = 3, day = 3\<rparr>,
       End_Date = \<lparr>year = 2025, month = 3, day = 7\<rparr>\<rparr>,
      \<lparr>Sprint = ''B'', Start_Date = \<lparr>year = 2025, month = 3, day = 10\<rparr>,
       End_Date = \<lparr>year = 2025, month = 3, day = 14\<rparr>\<rparr>,
      \<lparr>Sprint = ''A'', Start_Date = \<lparr>year = 2025, month = 3, day = 17\<rparr>,
       End_Date = \<lparr>year = 2025, month = 3, day = 21\<rparr>\<rparr>]"

section \<open>Properties of the parser\<close>

subsection \<open>Lines of a text\<close>

lemma strip_lead: "isspace c \<Longrightarrow> strip (c # p) = strip p"
  by (simp add: strip_def)

lemma strip_trail:
  assumes "isspace c" shows "strip (p @ [c]) = strip p"
proof (cases "\<forall>x\<in>set p. isspace x")
  case True
  then have a: "dropWhile isspace p = []"
    by (simp add: dropWhile_eq_Nil_conv)
  from True have "dropWhile isspace (p @ [c]) = dropWhile isspace [c]"
    by (intro dropWhile_append2) simp
  also have "\<dots> = []"
    using assms by simp
  finally show ?thesis
    unfolding strip_def a by simp
next
  case False
  then obtain x where "x \<in> set p" "\<not> isspace x" by blast
  then have "dropWhile isspace (p @ [c]) = dropWhile isspace p @ [c]"
    by (rule dropWhile_append1)
  then show ?thesis using assms by (simp add: strip_def)
qed

lemma strip_Nil: "strip [] = []"
  by (simp add: strip_def)

lemma split_on_nonempty: "split_on sep s \<noteq> []"
  by (induction s) (auto split: list.splits)

lemma raw_lines_lead: "isspace c \<Longrightarrow> raw_lines (c # t) = raw_lines t"
  using split_on_nonempty[of newline t]
  by (cases "split_on newline t") (auto simp: raw_lines_def strip_lead strip_Nil)

lemma raw_lines_dropWhile: "raw_lines (dropWhile isspace t) = raw_lines t"
  by (induction t) (auto simp: raw_lines_lead)

lemma split_on_snoc:
  "split_on sep (t @ [c]) =
     (if c = sep then split_on sep t @ [[]]
      else butlast (split_on sep t) @ [last (split_on sep t) @ [c]])"
proof (induction t)
  case Nil
  then show ?case by simp
next
  case (Cons x t)
  then show ?case
    using split_on_nonempty[of sep t]
    by (cases "split_on sep t") (auto split: list.splits)
qed

lemma raw_lines_trail:
  assumes "isspace c" shows "raw_lines (t @ [c]) = raw_lines t"
proof -
  obtain ps p where sp: "split_on newline t = ps @ [p]"
    using split_on_nonempty[of newline t] by (metis rev_exhaust)
  show ?thesis
    using assms by (simp add: raw_lines_def split_on_snoc sp strip_trail strip_Nil)
qed

lemma raw_lines_rev_dropWhile: "raw_lines (rev (dropWhile isspace r)) = raw_lines (rev r)"
  by (induction r) (auto simp: raw_lines_trail)

lemma lines_of_raw: "lines_of t = raw_lines t"
proof -
  have "lines_of t = raw_lines (strip t)"
    by (simp add: lines_of_def raw_lines_def)
  also have "\<dots> = raw_lines (rev (rev (dropWhile isspace t)))"
    unfolding strip_def by (rule raw_lines_rev_dropWhile)
  also have "\<dots> = raw_lines t"
    by (simp add: raw_lines_dropWhile)
  finally show ?thesis .
qed

lemma split_on_first:
  "sep \<notin> set h \<Longrightarrow> split_on sep (h @ sep # body) = h # split_on sep body"
  by (induction h) auto


lemma lines_of_blank:
  assumes "newline \<notin> set h" and "strip h = []"
  shows "lines_of (h @ newline # body) = lines_of body"
  using assms by (simp add: lines_of_raw raw_lines_def split_on_first)

subsection \<open>The loop over the data lines\<close>

lemma parse_loop_append:
  "parse_loop td sprints (xs @ ys) =
     (case parse_loop td sprints xs of Inl e \<Rightarrow> Inl e | Inr acc \<Rightarrow> parse_loop td acc ys)"
  by (induction xs arbitrary: sprints) (auto simp: Let_def split: option.splits)

lemma parse_loop_bad:
  assumes "line \<in> set ls" and "length (split line) \<ge> 3"
    and "td (split line ! 1) = None \<or> td (split line ! 2) = None"
  shows "\<exists>tok. parse_loop td sprints ls = Inl (ParseError tok) \<and> td tok = None"
  using assms(1)
proof (induction ls arbitrary: sprints)
  case Nil
  then show ?case by simp
next
  case (Cons l ls)
  show ?case
  proof (cases "length (split l) \<ge> 3")
    case False
    with Cons assms(2) have "line \<in> set ls" by auto
    from Cons.IH[OF this] False show ?thesis by (simp add: Let_def)
  next
    case True
    show ?thesis
    proof (cases "td (split l ! 1)")
      case None
      with True show ?thesis by (simp add: Let_def)
    next
      case (Some s)
      note s = this
      show ?thesis
      proof (cases "td (split l ! 2)")
        case None
        with True s show ?thesis by (simp add: Let_def)
      next
        case (Some e)
        with s assms(3) have "l \<noteq> line" by auto
        with Cons.prems have "line \<in> set ls" by simp
        from Cons.IH[OF this] True s Some show ?thesis by (simp add: Let_def)
      qed
    qed
  qed
qed

lemma parse_loop_rows:
  assumes "parse_loop td sprints ls = Inr df"
  shows "\<exists>rows. df = sprints @ rows \<and>
           map Sprint rows = map (\<lambda>l. split l ! 0) (filter (\<lambda>l. length (split l) \<ge> 3) ls) \<and>
           map (\<lambda>r. Some (Start_Date r)) rows =
             map (\<lambda>l. td (split l ! 1)) (filter (\<lambda>l. length (split l) \<ge> 3) ls) \<and>
           map (\<lambda>r. Some (End_Date r)) rows =
             map (\<lambda>l. td (split l ! 2)) (filter (\<lambda>l. length (split l) \<ge> 3) ls)"
  using assms
proof (induction ls arbitrary: sprints)
  case Nil
  then show ?case by simp
next
  case (Cons l ls)
  show ?case
  proof (cases "length (split l) \<ge> 3")
    case False
    with Cons.prems have "parse_loop td sprints ls = Inr df" by (simp add: Let_def)
    from Cons.IH[OF this] False show ?thesis by simp
  next
    case True
    with Cons.prems obtain s e where s: "td (split l ! 1) = Some s" and e: "td (split l ! 2) = Some e"
      and rest: "parse_loop td (sprints @ [\<lparr>Sprint = split l ! 0, Start_Date = s, End_Date = e\<rparr>]) ls = Inr df"
      by (auto simp: Let_def split: option.splits)
    from Cons.IH[OF rest] obtain rows where
      "df = (sprints @ [\<lparr>Sprint = split l ! 0, Start_Date = s, End_Date = e\<rparr>]) @ rows"
      "map Sprint rows = map (\<lambda>l. split l ! 0) (filter (\<lambda>l. length (split l) \<ge> 3) ls)"
      "map (\<lambda>r. Some (Start_Date r)) rows =
         map (\<lambda>l. td (split l ! 1)) (filter (\<lambda>l. length (split l) \<ge> 3) ls)"
      "map (\<lambda>r. Some (End_Date r)) rows =
         map (\<lambda>l. td (split l ! 2)) (filter (\<lambda>l. length (split l) \<ge> 3) ls)"
      by blast
    with True s e show ?thesis
      by (intro exI[of _ "\<lparr>Sprint = split l ! 0, Start_Date = s, End_Date = e\<rparr> # rows"]) simp
  qed
qed

subsection \<open>Short lines are skipped\<close>

text \<open>
  Claim C5. A data line that splits into fewer than three tokens never raises and adds no
  record: the loop returns the list it was given unchanged on that line, and the result of
  \<^verbatim>\<open>parse_sprint_data\<close> is the result of the loop on the data lines without that line.
\<close>

theorem short_line_skipped:
  assumes "data_lines text = pre @ line # post" and "length (split line) < 3"
  shows "parse_loop td sprints [line] = Inr sprints \<and>
         parse_sprint_data td text = parse_loop td [] (pre @ post)"
proof -
  have one: "parse_loop td acc [line] = Inr acc" for acc
    using assms(2) by (simp add: Let_def)
  have "parse_loop td [] (pre @ [line] @ post) = parse_loop td [] (pre @ post)"
    unfolding parse_loop_append[of td _ pre] parse_loop_append[of td _ "[line]"] one
    by (simp split: sum.splits)
  with one assms(1) show ?thesis
    by (simp add: parse_sprint_data_def)
qed

theorem short_line_skipped_witness:
  "data_lines ''h\<newline>only two\<newline>A 2025-03-10 2025-03-21'' =
     [] @ ''only two'' # [''A 2025-03-10 2025-03-21''] \<and>
   length (split ''only two'') < 3 \<and>
   parse_loop example_to_datetime [] [''only two''] = Inr [] \<and>
   parse_sprint_data example_to_datetime ''h\<newline>only two\<newline>A 2025-03-10 2025-03-21'' =
     Inr [\<lparr>Sprint = ''A'', Start_Date = \<lparr>year = 2025, month = 3, day = 10\<rparr>,
           End_Date = \<lparr>year = 2025, month = 3, day = 21\<rparr>\<rparr>]"
proof -
  have h1: "data_lines ''h\<newline>only two\<newline>A 2025-03-10 2025-03-21'' =
              [] @ ''only two'' # [''A 2025-03-10 2025-03-21'']"
    by code_simp
  have h2: "length (split ''only two'') < 3"
    by code_simp
  have r: "parse_loop example_to_datetime [] ([] @ [''A 2025-03-10 2025-03-21'']) =
             Inr [\<lparr>Sprint = ''A'', Start_Date = \<lparr>year = 2025, month = 3, day = 10\<rparr>,
                   End_Date = \<lparr>year = 2025, month = 3, day = 21\<rparr>\<rparr>]"
    by code_simp
  note t = short_line_skipped[OF h1 h2, of example_to_datetime "[]"]
  from t have c1: "parse_loop example_to_datetime [] [''only two''] = Inr []"
    by (rule conjunct1)
  from t have "parse_sprint_data example_to_datetime
                 ''h\<newline>only two\<newline>A 2025-03-10 2025-03-21'' =
               parse_loop example_to_datetime [] ([] @ [''A 2025-03-10 2025-03-21''])"
    by (rule conjunct2)
  then have c2: "parse_sprint_data example_to_datetime
                   ''h\<newline>only two\<newline>A 2025-03-10 2025-03-21'' =
       Inr [\<lparr>Sprint = ''A'', Start_Date = \<lparr>year = 2025, month = 3, day = 10\<rparr>,
             End_Date = \<lparr>year = 2025, month = 3, day = 21\<rparr>\<rparr>]"
    by (rule trans) (rule r)
  show ?thesis
    by (intro conjI h1 h2 c1 c2)
qed

subsection \<open>A malformed date raises\<close>

text \<open>
  Claim C6, in the form that holds of the code. When some data line has at least three tokens and \<open>to_datetime\<close> raises
  on its second or on its third token, \<^verbatim>\<open>parse_sprint_data\<close> raises: the result is the error
  of a token on which \<open>to_datetime\<close> raises, so no data frame, and no record of that line, is
  returned. The hypothesis is that \<open>to_datetime\<close> raises, not that the token is no calendar
  date: the two differ, as the example after the theorem shows.
\<close>

theorem bad_date_raises:
  assumes "line \<in> set (data_lines text)" and "length (split line) \<ge> 3"
    and "td (split line ! 1) = None \<or> td (split line ! 2) = None"
  shows "\<exists>tok. parse_sprint_data td text = Inl (ParseError tok) \<and> td tok = None"
  unfolding parse_sprint_data_def using assms by (rule parse_loop_bad)

theorem bad_date_raises_witness:
  "''B 2025-03-17 someday'' \<in> set (data_lines ''h\<newline>A 2025-03-10 2025-03-21\<newline>B 2025-03-17 someday'') \<and>
   length (split ''B 2025-03-17 someday'') \<ge> 3 \<and>
   example_to_datetime (split ''B 2025-03-17 someday'' ! 2) = None \<and>
   (\<exists>tok. parse_sprint_data example_to_datetime
            ''h\<newline>A 2025-03-10 2025-03-21\<newline>B 2025-03-17 someday'' = Inl (ParseError tok) \<and>
          example_to_datetime tok = None)"
proof -
  have h1: "''B 2025-03-17 someday'' \<in>
              set (data_lines ''h\<newline>A 2025-03-10 2025-03-21\<newline>B 2025-03-17 someday'')"
    by code_simp
  have h2: "length (split ''B 2025-03-17 someday'') \<ge> 3"
    by code_simp
  have h3: "example_to_datetime (split ''B 2025-03-17 someday'' ! 2) = None"
    by code_simp
  have c: "\<exists>tok. parse_sprint_data example_to_datetime
             ''h\<newline>A 2025-03-10 2025-03-21\<newline>B 2025-03-17 someday'' = Inl (ParseError tok) \<and>
           example_to_datetime tok = None"
    by (rule bad_date_raises[where td = example_to_datetime, OF h1 h2 disjI2[OF h3]])
  show ?thesis
    by (intro conjI h1 h2 h3 c)
qed

text \<open>
  Claim C6 as the specification states it, for every token that is not a recognizable
  calendar date, does not hold: \<^verbatim>\<open>pd.to_datetime\<close> returns the missing value on the token
  \<^verbatim>\<open>NaT\<close> without raising, and the parser, which never looks at the value, appends a record
  whose start date is missing.
\<close>

theorem nat_token_accepted:
  "''A NaT 2025-03-21'' \<in> set (data_lines ''h\<newline>A NaT 2025-03-21'') \<and>
   3 \<le> length (split ''A NaT 2025-03-21'') \<and>
   split ''A NaT 2025-03-21'' ! 1 = ''NaT'' \<and>
   \<not> recognizable example_pandas ''NaT'' \<and>
   parse_sprint_data example_pandas ''h\<newline>A NaT 2025-03-21'' =
     Inr [\<lparr>Sprint = ''A'', Start_Date = NaT,
           End_Date = Timestamp \<lparr>year = 2025, month = 3, day = 21\<rparr>\<rparr>]"
proof -
  have h1: "''A NaT 2025-03-21'' \<in> set (data_lines ''h\<newline>A NaT 2025-03-21'')"
    by code_simp
  have h2: "3 \<le> length (split ''A NaT 2025-03-21'')"
    by code_simp
  have h3: "split ''A NaT 2025-03-21'' ! 1 = ''NaT''"
    by code_simp
  have h4: "\<not> recognizable example_pandas ''NaT''"
    by (simp add: recognizable_def example_pandas_def)
  have r: "parse_sprint_data example_pandas ''h\<newline>A NaT 2025-03-21'' =
     Inr [\<lparr>Sprint = ''A'', Start_Date = NaT,
           End_Date = Timestamp \<lparr>year = 2025, month = 3, day = 21\<rparr>\<rparr>]"
    by code_simp
  show ?thesis
    by (intro conjI h1 h2 h3 h4 r)
qed

subsection \<open>Order of the records\<close>

text \<open>
  Claim C7. When \<^verbatim>\<open>parse_sprint_data\<close> succeeds, the data frame has one record for each
  data line of at least three tokens, in the order of the lines: the names are the first
  tokens, the start and end dates are what \<open>to_datetime\<close> returned on the second and third
  tokens, with nothing merged, dropped or reordered.
\<close>

theorem parse_preserves_order:
  assumes "parse_sprint_data td text = Inr df"
  shows "length df = length (filter (\<lambda>l. length (split l) \<ge> 3) (data_lines text)) \<and>
         map Sprint df = map (\<lambda>l. split l ! 0) (filter (\<lambda>l. length (split l) \<ge> 3) (data_lines text)) \<and>
         map (\<lambda>r. Some (Start_Date r)) df =
           map (\<lambda>l. td (split l ! 1)) (filter (\<lambda>l. length (split l) \<ge> 3) (data_lines text)) \<and>
         map (\<lambda>r. Some (End_Date r)) df =
           map (\<lambda>l. td (split l ! 2)) (filter (\<lambda>l. length (split l) \<ge> 3) (data_lines text))"
proof -
  from assms have "parse_loop td [] (data_lines text) = Inr df"
    by (simp add: parse_sprint_data_def)
  from parse_loop_rows[OF this] obtain rows where
    r: "df = [] @ rows"
      "map Sprint rows = map (\<lambda>l. split l ! 0) (filter (\<lambda>l. length (split l) \<ge> 3) (data_lines text))"
      "map (\<lambda>r. Some (Start_Date r)) rows =
         map (\<lambda>l. td (split l ! 1)) (filter (\<lambda>l. length (split l) \<ge> 3) (data_lines text))"
      "map (\<lambda>r. Some (End_Date r)) rows =
         map (\<lambda>l. td (split l ! 2)) (filter (\<lambda>l. length (split l) \<ge> 3) (data_lines text))"
    by blast
  from r(2) have "length rows = length (filter (\<lambda>l. length (split l) \<ge> 3) (data_lines text))"
    by (rule map_eq_imp_length_eq)
  with r show ?thesis by simp
qed

theorem parse_preserves_order_witness:
  "parse_sprint_data example_to_datetime
     ''h\<newline>B 2025-03-17 2025-03-28\<newline>short\<newline>A 2025-03-10 2025-03-21\<newline>B 2025-03-17 2025-03-28'' =
     Inr [\<lparr>Sprint = ''B'', Start_Date = \<lparr>year = 2025, month = 3, day = 17\<rparr>,
           End_Date = \<lparr>year = 2025, month = 3, day = 28\<rparr>\<rparr>,
          \<lparr>Sprint = ''A'', Start_Date = \<lparr>year = 2025, month = 3, day = 10\<rparr>,
           End_Date = \<lparr>year = 2025, month = 3, day = 21\<rparr>\<rparr>,
          \<lparr>Sprint = ''B'', Start_Date = \<lparr>year = 2025, month = 3, day = 17\<rparr>,
           End_Date = \<lparr>year = 2025, month = 3, day = 28\<rparr>\<rparr>] \<and>
   map Sprint
     [\<lparr>Sprint = ''B'', Start_Date = \<lparr>year = 2025, month = 3, day = 17\<rparr>,
       End_Date = \<lparr>year = 2025, month = 3, day = 28\<rparr>\<rparr>,
      \<lparr>Sprint = ''A'', Start_Date = \<lparr>year = 2025, month = 3, day = 10\<rparr>,
       End_Date = \<lparr>year = 2025, month = 3, day = 21\<rparr>\<rparr>,
      \<lparr>Sprint = ''B'', Start_Date = \<lparr>year = 2025, month = 3, day = 17\<rparr>,
       End_Date = \<lparr>year = 2025, month = 3, day = 28\<rparr>\<rparr>] =
   map (\<lambda>l. split l ! 0) (filter (\<lambda>l. length (split l) \<ge> 3)
     (data_lines ''h\<newline>B 2025-03-17 2025-03-28\<newline>short\<newline>A 2025-03-10 2025-03-21\<newline>B 2025-03-17 2025-03-28''))"
proof -
  have h: "parse_sprint_data example_to_datetime
     ''h\<newline>B 2025-03-17 2025-03-28\<newline>short\<newline>A 2025-03-10 2025-03-21\<newline>B 2025-03-17 2025-03-28'' =
     Inr [\<lparr>Sprint = ''B'', Start_Date = \<lparr>year = 2025, month = 3, day = 17\<rparr>,
           End_Date = \<lparr>year = 2025, month = 3, day = 28\<rparr>\<rparr>,
          \<lparr>Sprint = ''A'', Start_Date = \<lparr>year = 2025, month = 3, day = 10\<rparr>,
           End_Date = \<lparr>year = 2025, month = 3, day = 21\<rparr>\<rparr>,
          \<lparr>Sprint = ''B'', Start_Date = \<lparr>year = 2025, month = 3, day = 17\<rparr>,
           End_Date = \<lparr>year = 2025, month = 3, day = 28\<rparr>\<rparr>]"
    by code_simp
  from parse_preserves_order[OF h] have c: "map Sprint
     [\<lparr>Sprint = ''B'', Start_Date = \<lparr>year = 2025, month = 3, day = 17\<rparr>,
       End_Date = \<lparr>year = 2025, month = 3, day = 28\<rparr>\<rparr>,
      \<lparr>Sprint = ''A'', Start_Date = \<lparr>year = 2025, month = 3, day = 10\<rparr>,
       End_Date = \<lparr>year = 2025, month = 3, day = 21\<rparr>\<rparr>,
      \<lparr>Sprint = ''B'', Start_Date = \<lparr>year = 2025, month = 3, day = 17\<rparr>,
       End_Date = \<lparr>year = 2025, month = 3, day = 28\<rparr>\<rparr>] =
   map (\<lambda>l. split l ! 0) (filter (\<lambda>l. length (split l) \<ge> 3)
     (data_lines ''h\<newline>B 2025-03-17 2025-03-28\<newline>short\<newline>A 2025-03-10 2025-03-21\<newline>B 2025-03-17 2025-03-28''))"
    by blast
  show ?thesis
    by (intro conjI h c)
qed

subsection \<open>The header line\<close>



section \<open>Properties of the renderer\<close>

subsection \<open>Least and greatest dates\<close>

lemma date_le_refl: "date_le a a"
  by (simp add: date_le_def)

lemma date_le_total: "date_le a b \<or> date_le b a"
  by (auto simp: date_le_def)

lemma date_le_trans: "date_le a b \<Longrightarrow> date_le b c \<Longrightarrow> date_le a c"
  by (auto simp: date_le_def)

lemma fold_min_least:
  "fold (\<lambda>x m. if date_le m x then m else x) ds d \<in> set (d # ds) \<and>
   date_le (fold (\<lambda>x m. if date_le m x then m else x) ds d) d \<and>
   (\<forall>x\<in>set ds. date_le (fold (\<lambda>x m. if date_le m x then m else x) ds d) x)"
proof (induction ds arbitrary: d)
  case Nil
  then show ?case by (simp add: date_le_refl)
next
  case (Cons a ds)
  show ?case
  proof (cases "date_le d a")
    case True
    with Cons[of d] show ?thesis
      by (auto intro: date_le_trans)
  next
    case False
    then have "date_le a d" using date_le_total by blast
    with False Cons[of a] show ?thesis
      by (auto intro: date_le_trans)
  qed
qed

lemma fold_max_greatest:
  "fold (\<lambda>x m. if date_le x m then m else x) ds d \<in> set (d # ds) \<and>
   date_le d (fold (\<lambda>x m. if date_le x m then m else x) ds d) \<and>
   (\<forall>x\<in>set ds. date_le x (fold (\<lambda>x m. if date_le x m then m else x) ds d))"
proof (induction ds arbitrary: d)
  case Nil
  then show ?case by (simp add: date_le_refl)
next
  case (Cons a ds)
  show ?case
  proof (cases "date_le a d")
    case True
    with Cons[of d] show ?thesis
      by (auto intro: date_le_trans)
  next
    case False
    then have "date_le d a" using date_le_total by blast
    with False Cons[of a] show ?thesis
      by (auto intro: date_le_trans)
  qed
qed

lemma series_min_least:
  assumes "ds \<noteq> []"
  shows "series_min ds \<in> set ds \<and> (\<forall>x\<in>set ds. date_le (series_min ds) x)"
proof -
  from assms obtain d ds' where "ds = d # ds'" by (cases ds) auto
  with fold_min_least[of ds' d] show ?thesis by auto
qed

lemma series_max_greatest:
  assumes "ds \<noteq> []"
  shows "series_max ds \<in> set ds \<and> (\<forall>x\<in>set ds. date_le x (series_max ds))"
proof -
  from assms obtain d ds' where "ds = d # ds'" by (cases ds) auto
  with fold_max_greatest[of ds' d] show ?thesis by auto
qed

lemma month_of_index_inverse:
  "1 \<le> m \<Longrightarrow> m \<le> 12 \<Longrightarrow> month_of_index (12 * y + m - 1) = (y, m)"
proof -
  assume "1 \<le> m" "m \<le> 12"
  then have "(12 * y + m - 1) div 12 = y" "(12 * y + m - 1) mod 12 + 1 = m"
    by presburger+
  then show ?thesis by (simp add: month_of_index_def)
qed

lemma pair_le_index:
  "1 \<le> cm \<Longrightarrow> cm \<le> 12 \<Longrightarrow> 1 \<le> em \<Longrightarrow> em \<le> 12 \<Longrightarrow>
   pair_le (cy, cm) (ey, em) \<longleftrightarrow> 12 * cy + cm - 1 \<le> 12 * ey + em - 1"
  by (auto simp: pair_le_def)

lemma months_loop_enumerates:
  assumes "1 \<le> em" "em \<le> 12"
  shows "1 \<le> cm \<Longrightarrow> cm \<le> 12 \<Longrightarrow>
     months_loop (ey, em) cy cm acc =
       acc @ map month_of_index [12 * cy + cm - 1 .. 12 * ey + em - 1]"
proof (induction "(ey, em)" cy cm acc rule: months_loop.induct)
  case (1 cy cm acc)
  show ?case
  proof (cases "pair_le (cy, cm) (ey, em)")
    case False
    with 1(3,4) assms have "\<not> 12 * cy + cm - 1 \<le> 12 * ey + em - 1"
      by (simp add: pair_le_index)
    with False show ?thesis
      by (subst months_loop.simps) simp
  next
    case True
    with 1(3,4) assms have le: "12 * cy + cm - 1 \<le> 12 * ey + em - 1"
      by (simp add: pair_le_index)
    then have up: "[12 * cy + cm - 1 .. 12 * ey + em - 1] =
                   (12 * cy + cm - 1) # [12 * cy + cm .. 12 * ey + em - 1]"
      by (subst upto_rec1) simp_all
    have step: "months_loop (ey, em) cy cm acc =
                (if cm + 1 > 12 then months_loop (ey, em) (cy + 1) 1 (acc @ [(cy, cm)])
                 else months_loop (ey, em) cy (cm + 1) (acc @ [(cy, cm)]))"
      using True by (subst months_loop.simps) simp
    have hd: "month_of_index (12 * cy + cm - 1) = (cy, cm)"
      using 1(3,4) by (rule month_of_index_inverse)
    show ?thesis
    proof (cases "cm + 1 > 12")
      case True
      with 1(3,4) have cm: "cm = 12" by simp
      have ix: "12 * (cy + 1) + 1 - 1 = 12 * cy + cm"
        using cm by simp
      from 1(1)[OF \<open>pair_le (cy, cm) (ey, em)\<close> True]
      have "months_loop (ey, em) (cy + 1) 1 (acc @ [(cy, cm)]) =
              (acc @ [(cy, cm)]) @ map month_of_index [12 * (cy + 1) + 1 - 1 .. 12 * ey + em - 1]"
        by simp
      then have "months_loop (ey, em) (cy + 1) 1 (acc @ [(cy, cm)]) =
              (acc @ [(cy, cm)]) @ map month_of_index [12 * cy + cm .. 12 * ey + em - 1]"
        unfolding ix .
      with True show ?thesis
        unfolding step up by (simp add: hd)
    next
      case False
      with 1(3) have r: "1 \<le> cm + 1" "cm + 1 \<le> 12" by simp_all
      have ix: "12 * cy + (cm + 1) - 1 = 12 * cy + cm"
        by simp
      from 1(2)[OF \<open>pair_le (cy, cm) (ey, em)\<close> False r]
      have "months_loop (ey, em) cy (cm + 1) (acc @ [(cy, cm)]) =
              (acc @ [(cy, cm)]) @ map month_of_index [12 * cy + (cm + 1) - 1 .. 12 * ey + em - 1]" .
      then have "months_loop (ey, em) cy (cm + 1) (acc @ [(cy, cm)]) =
              (acc @ [(cy, cm)]) @ map month_of_index [12 * cy + cm .. 12 * ey + em - 1]"
        unfolding ix .
      with False show ?thesis
        unfolding step up by (simp add: hd)
    qed
  qed
qed

lemma start_month_least:
  assumes "df \<noteq> []"
  shows "\<exists>r\<in>set df. start_month df = (year (Start_Date r), month (Start_Date r)) \<and>
           (\<forall>r'\<in>set df. date_le (Start_Date r) (Start_Date r'))"
proof -
  from assms have "map Start_Date df \<noteq> []" by simp
  from series_min_least[OF this] show ?thesis
    by (auto simp: start_month_def Let_def)
qed

lemma end_month_greatest:
  assumes "df \<noteq> []"
  shows "\<exists>r\<in>set df. end_month df = (year (End_Date r), month (End_Date r)) \<and>
           (\<forall>r'\<in>set df. date_le (End_Date r') (End_Date r))"
proof -
  from assms have "map End_Date df \<noteq> []" by simp
  from series_max_greatest[OF this] show ?thesis
    by (auto simp: end_month_def Let_def)
qed

lemma months_to_display_index:
  assumes "df \<noteq> []" and "valid_months df"
  shows "months_to_display df =
           map month_of_index [index_of_month (start_month df) .. index_of_month (end_month df)]"
proof -
  from start_month_least[OF assms(1)] assms(2)
  have s: "1 \<le> snd (start_month df)" "snd (start_month df) \<le> 12"
    by (auto simp: valid_months_def list_all_iff)
  from end_month_greatest[OF assms(1)] assms(2)
  have e: "1 \<le> snd (end_month df)" "snd (end_month df) \<le> 12"
    by (auto simp: valid_months_def list_all_iff)
  from months_loop_enumerates[OF e s, of "fst (end_month df)" "fst (start_month df)" "[]"]
  show ?thesis
    by (simp add: months_to_display_def index_of_month_def)
qed

lemma figure_axes_months:
  assumes "generate_wall_calendar df = Inr (Some fig)"
  shows "map ax_month (fig_axes fig) = months_to_display df"
proof -
  have "map (ax_month \<circ> draw_month df sc cols) (enumerate 0 ms) = map snd (enumerate 0 ms)" for sc cols ms
    by (rule map_cong) (auto simp: draw_month_def Let_def)
  then have "map ax_month (map (draw_month df sc cols) (enumerate 0 ms)) = ms" for sc cols ms
    by (simp add: map_snd_enumerate)
  with assms show ?thesis
    by (auto simp: generate_wall_calendar_def Let_def split: if_splits)
qed

lemma figure_returned:
  assumes "df \<noteq> []" and "months_to_display df \<noteq> []"
  shows "\<exists>fig. generate_wall_calendar df = Inr (Some fig)"
  using assms by (simp add: generate_wall_calendar_def Let_def)

subsection \<open>The months of the figure\<close>

text \<open>
  Claim C3. For a non-empty data frame (with months in 1..12), the start month is the month
  of a least start date and the end month the month of a greatest end date; the months
  enumerated are exactly those of the indices from the start month's to the end month's,
  in order, one calendar month per step, December being followed by January of the next
  year; a returned figure has one subplot per enumerated month, in that order, and a
  figure is returned whenever the start month is not after the end month. In particular
  equal start and end months give exactly one month, and December to the next January
  gives the two months with the year incremented.
\<close>

theorem months_enumerated:
  assumes "df \<noteq> []" and "valid_months df"
  shows "(\<exists>r\<in>set df. start_month df = (year (Start_Date r), month (Start_Date r)) \<and>
             (\<forall>r'\<in>set df. date_le (Start_Date r) (Start_Date r'))) \<and>
         (\<exists>r\<in>set df. end_month df = (year (End_Date r), month (End_Date r)) \<and>
             (\<forall>r'\<in>set df. date_le (End_Date r') (End_Date r))) \<and>
         months_to_display df =
           map month_of_index [index_of_month (start_month df) .. index_of_month (end_month df)] \<and>
         (\<forall>fig. generate_wall_calendar df = Inr (Some fig) \<longrightarrow>
            map ax_month (fig_axes fig) = months_to_display df) \<and>
         (pair_le (start_month df) (end_month df) \<longrightarrow>
            (\<exists>fig. generate_wall_calendar df = Inr (Some fig))) \<and>
         (start_month df = end_month df \<longrightarrow> months_to_display df = [start_month df]) \<and>
         (\<forall>y. start_month df = (y, 12) \<and> end_month df = (y + 1, 1) \<longrightarrow>
            months_to_display df = [(y, 12), (y + 1, 1)])"
proof -
  note ix = months_to_display_index[OF assms]
  from start_month_least[OF assms(1)] assms(2)
  have s: "1 \<le> snd (start_month df)" "snd (start_month df) \<le> 12"
    by (auto simp: valid_months_def list_all_iff)
  from end_month_greatest[OF assms(1)] assms(2)
  have e: "1 \<le> snd (end_month df)" "snd (end_month df) \<le> 12"
    by (auto simp: valid_months_def list_all_iff)
  have inv: "month_of_index (index_of_month (start_month df)) = start_month df"
    using month_of_index_inverse[OF s, of "fst (start_month df)"]
    by (simp add: index_of_month_def)
  have one: "months_to_display df = [start_month df]" if "start_month df = end_month df"
    using that ix inv by simp
  have two: "months_to_display df = [(y, 12), (y + 1, 1)]"
    if "start_month df = (y, 12) \<and> end_month df = (y + 1, 1)" for y
  proof -
    have "[index_of_month (y, 12) .. index_of_month (y + 1, 1)] = [12 * y + 11, 12 * y + 12]"
      by (simp add: index_of_month_def upto_rec1)
    moreover have "month_of_index (12 * y + 11) = (y, 12)" "month_of_index (12 * y + 12) = (y + 1, 1)"
      using month_of_index_inverse[of 12 y] month_of_index_inverse[of 1 "y + 1"]
      by (simp_all add: add.commute)
    ultimately show ?thesis using that ix by simp
  qed
  have ret: "\<exists>fig. generate_wall_calendar df = Inr (Some fig)"
    if "pair_le (start_month df) (end_month df)"
  proof -
    from that s e have "index_of_month (start_month df) \<le> index_of_month (end_month df)"
      using pair_le_index[of "snd (start_month df)" "snd (end_month df)"
          "fst (start_month df)" "fst (end_month df)"]
      by (simp add: index_of_month_def)
    with ix have "months_to_display df \<noteq> []" by simp
    with assms(1) show ?thesis by (rule figure_returned)
  qed
  show ?thesis
    using start_month_least[OF assms(1)] end_month_greatest[OF assms(1)] ix
      figure_axes_months[of df] one two ret
    by (intro conjI allI impI) blast+
qed

theorem months_enumerated_witness:
  "december_january \<noteq> [] \<and> valid_months december_january \<and>
   start_month december_january = (2024, 12) \<and> end_month december_january = (2025, 1) \<and>
   months_to_display december_january = [(2024, 12), (2025, 1)] \<and>
   (\<exists>fig. generate_wall_calendar december_january = Inr (Some fig) \<and>
          map ax_month (fig_axes fig) = [(2024, 12), (2025, 1)])"
proof -
  have h1: "december_january \<noteq> []"
    by (simp add: december_january_def)
  have h2: "valid_months december_january"
    by (simp add: december_january_def valid_months_def)
  have s: "start_month december_january = (2024, 12)"
    by (simp add: december_january_def start_month_def date_le_def)
  have e: "end_month december_january = (2025, 1)"
    by (simp add: december_january_def end_month_def date_le_def)
  note t = months_enumerated[OF h1 h2]
  from t have "start_month december_january = (2024, 12) \<and>
               end_month december_january = (2024 + 1, 1) \<longrightarrow>
               months_to_display december_january = [(2024, 12), (2024 + 1, 1)]"
    by blast
  with s e have m: "months_to_display december_january = [(2024, 12), (2025, 1)]"
    by simp
  have "pair_le (start_month december_january) (end_month december_january)"
    unfolding s e by (simp add: pair_le_def)
  with t obtain fig where f: "generate_wall_calendar december_january = Inr (Some fig)"
    by blast
  with t m have fm: "map ax_month (fig_axes fig) = [(2024, 12), (2025, 1)]"
    by metis
  have c: "\<exists>fig. generate_wall_calendar december_january = Inr (Some fig) \<and>
          map ax_month (fig_axes fig) = [(2024, 12), (2025, 1)]"
    by (intro exI[of _ fig] conjI f fm)
  show ?thesis
    by (intro conjI h1 h2 s e m c)
qed

subsection \<open>The empty data frame\<close>

text \<open>
  Claim C4. \<^verbatim>\<open>generate_wall_calendar\<close> returns \<^verbatim>\<open>None\<close> on the empty data frame, without
  raising, and on no other data frame.
\<close>

theorem none_iff_empty:
  "(generate_wall_calendar df = Inr None) = (df = [])"
  by (simp add: generate_wall_calendar_def Let_def)

theorem none_iff_empty_witness:
  "generate_wall_calendar [] = Inr None \<and> generate_wall_calendar december_january \<noteq> Inr None"
proof -
  have a: "generate_wall_calendar [] = Inr None"
    using none_iff_empty[of "[]"] by blast
  have "december_january \<noteq> []"
    by (simp add: december_january_def)
  then have b: "generate_wall_calendar december_january \<noteq> Inr None"
    using none_iff_empty[of december_january] by blast
  show ?thesis
    by (intro conjI a b)
qed

subsection \<open>The month calendar\<close>

lemma weeks_of_nth:
  "p < length xs \<Longrightarrow>
   p div 7 < length (weeks_of xs) \<and> p mod 7 < length (weeks_of xs ! (p div 7)) \<and>
   weeks_of xs ! (p div 7) ! (p mod 7) = xs ! p"
proof (induction xs arbitrary: p rule: weeks_of.induct)
  case (1 days)
  then have ne: "days \<noteq> []" by auto
  then have w: "weeks_of days = take 7 days # weeks_of (drop 7 days)"
    by (subst weeks_of.simps) simp
  show ?case
  proof (cases "p < 7")
    case True
    with 1(2) show ?thesis
      unfolding w by simp
  next
    case False
    then have p: "p div 7 = Suc ((p - 7) div 7)" "p mod 7 = (p - 7) mod 7"
      by (simp_all add: le_div_geq le_mod_geq)
    from False 1(2) have "p - 7 < length (drop 7 days)" by simp
    from 1(1)[OF ne this] False 1(2) show ?thesis
      unfolding w p by simp
  qed
qed

lemma weeks_of_index:
  "w < length (weeks_of xs) \<Longrightarrow> c < length (weeks_of xs ! w) \<Longrightarrow> c < 7 \<and> 7 * w + c < length xs"
proof (induction xs arbitrary: w rule: weeks_of.induct)
  case (1 days)
  show ?case
  proof (cases "days = []")
    case True
    with 1(2) show ?thesis by (simp add: weeks_of.simps[of "[]"])
  next
    case False
    then have wk: "weeks_of days = take 7 days # weeks_of (drop 7 days)"
      by (subst weeks_of.simps) simp
    show ?thesis
    proof (cases w)
      case 0
      with 1(3) show ?thesis unfolding wk by simp
    next
      case (Suc w')
      with 1(2,3) have "w' < length (weeks_of (drop 7 days))" "c < length (weeks_of (drop 7 days) ! w')"
        unfolding wk by simp_all
      from 1(1)[OF False this] Suc show ?thesis by (simp, arith)
    qed
  qed
qed

lemma weeks_of_cell:
  assumes "w < length (weeks_of xs)" and "c < length (weeks_of xs ! w)"
  shows "c < 7 \<and> 7 * w + c < length xs \<and> weeks_of xs ! w ! c = xs ! (7 * w + c)"
proof -
  from weeks_of_index[OF assms] have i: "c < 7" "7 * w + c < length xs" by simp_all
  then have "(7 * w + c) div 7 = w" "(7 * w + c) mod 7 = c" by simp_all
  with weeks_of_nth[OF i(2)] i show ?thesis by simp
qed

lemma weekday_range: "0 \<le> weekday y m d \<and> weekday y m d < 7"
  by (simp add: weekday_def Let_def)

lemma weekday_shift: "weekday y m d = (weekday y m 1 + d - 1) mod 7"
proof -
  have g: "(b + d + 6) mod 7 = ((b + 1 + 6) mod 7 + d - 1) mod 7" for b :: int
  proof -
    have "((b + 1 + 6) mod 7 + d - 1) mod 7 = ((b + 7) mod 7 + (d - 1)) mod 7"
      by (simp add: algebra_simps)
    also have "\<dots> = (b + 7 + (d - 1)) mod 7"
      by (rule mod_add_left_eq)
    also have "b + 7 + (d - 1) = b + d + 6"
      by simp
    finally show ?thesis by simp
  qed
  show ?thesis
    unfolding weekday_def Let_def ymd2ord_def by (rule g)
qed

lemma ndays_pos: "28 \<le> snd (monthrange y m)"
  by (simp add: monthrange_def mdays_def)

lemma itermonthdays_nth:
  assumes "p < length (itermonthdays y m)" and "itermonthdays y m ! p = d" and "d \<noteq> 0"
  shows "int p = weekday y m 1 + d - 1 \<and> 1 \<le> d \<and> d \<le> snd (monthrange y m)"
proof -
  define day1 where "day1 = weekday y m 1"
  define n where "n = snd (monthrange y m)"
  define a where "a = nat ((0 - day1 - n) mod 7)"
  have r: "0 \<le> day1" "day1 < 7" using weekday_range[of y m 1] by (simp_all add: day1_def)
  have n: "28 \<le> n" unfolding n_def by (rule ndays_pos)
  have xs: "itermonthdays y m = replicate (nat day1) 0 @ [1..n] @ replicate a 0"
    using r by (simp add: itermonthdays_def monthrange_def day1_def n_def a_def Let_def)
  show ?thesis
  proof (cases "p < nat day1")
    case True
    with assms(2,3) show ?thesis unfolding xs by (simp add: nth_append)
  next
    case False
    note b = this
    show ?thesis
    proof (cases "p - nat day1 < nat n")
      case True
      then have "1 + int (p - nat day1) \<le> n" by simp
      then have "[1..n] ! (p - nat day1) = 1 + int (p - nat day1)"
        by (rule nth_upto)
      with b True assms(2) have "d = 1 + int (p - nat day1)"
        unfolding xs by (simp add: nth_append)
      with b True r show ?thesis
        by (simp add: day1_def n_def) linarith
    next
      case False
      with b assms(1,2,3) show ?thesis unfolding xs by (simp add: nth_append)
    qed
  qed
qed

lemma itermonthdays_day:
  assumes "1 \<le> d" and "d \<le> snd (monthrange y m)"
  shows "nat (weekday y m 1 + d - 1) < length (itermonthdays y m) \<and>
         itermonthdays y m ! nat (weekday y m 1 + d - 1) = d"
proof -
  define day1 where "day1 = weekday y m 1"
  define n where "n = snd (monthrange y m)"
  define a where "a = nat ((0 - day1 - n) mod 7)"
  have r: "0 \<le> day1" "day1 < 7" using weekday_range[of y m 1] by (simp_all add: day1_def)
  have xs: "itermonthdays y m = replicate (nat day1) 0 @ [1..n] @ replicate a 0"
    using r by (simp add: itermonthdays_def monthrange_def day1_def n_def a_def Let_def)
  have p: "nat (day1 + d - 1) = nat day1 + nat (d - 1)"
    using r assms(1) by simp
  have "1 + int (nat (d - 1)) \<le> n" using assms by (simp add: n_def)
  then have "[1..n] ! nat (d - 1) = 1 + int (nat (d - 1))"
    by (rule nth_upto)
  with assms have v: "[1..n] ! nat (d - 1) = d" by simp
  have lt: "nat (d - 1) < nat n" using assms by (simp add: n_def)
  have "(replicate (nat day1) 0 @ [1..n] @ replicate a 0) ! (nat day1 + nat (d - 1)) =
        ([1..n] @ replicate a 0) ! nat (d - 1)"
    by (simp add: nth_append)
  also have "\<dots> = [1..n] ! nat (d - 1)"
    using lt by (simp add: nth_append)
  finally have "(replicate (nat day1) 0 @ [1..n] @ replicate a 0) ! (nat day1 + nat (d - 1)) = d"
    using v by simp
  moreover have "nat day1 + nat (d - 1) < length (replicate (nat day1) 0 @ [1..n] @ replicate a 0)"
  proof -
    have "length (replicate (nat day1) (0::int) @ [1..n] @ replicate a 0) = nat day1 + (nat n + a)"
      by simp
    then show ?thesis using lt by linarith
  qed
  ultimately show ?thesis
    unfolding day1_def[symmetric] p xs by blast
qed

lemma itermonthdays_length: "length (itermonthdays y m) mod 7 = 0"
proof -
  define day1 where "day1 = weekday y m 1"
  define n where "n = snd (monthrange y m)"
  have r: "0 \<le> day1" "day1 < 7" using weekday_range[of y m 1] by (simp_all add: day1_def)
  have n: "28 \<le> n" unfolding n_def by (rule ndays_pos)
  define total where "total = day1 + n + (0 - day1 - n) mod 7"
  have "length (itermonthdays y m) = nat day1 + nat n + nat ((0 - day1 - n) mod 7)"
    using r by (simp add: itermonthdays_def monthrange_def day1_def n_def Let_def)
  also have "\<dots> = nat total"
    using r n by (simp add: total_def)
  finally have len: "length (itermonthdays y m) = nat total" .
  have z: "total mod 7 = 0" unfolding total_def by (simp add: mod_simps)
  have nn: "0 \<le> total" using r n by (simp add: total_def)
  have "length (itermonthdays y m) mod 7 = nat (total mod 7)"
    using nn by (simp add: len nat_mod_distrib)
  then show ?thesis by (simp add: z)
qed

lemma weeks_of_full:
  "length xs mod 7 = 0 \<Longrightarrow> w < length (weeks_of xs) \<Longrightarrow> length (weeks_of xs ! w) = 7"
proof (induction xs arbitrary: w rule: weeks_of.induct)
  case (1 days)
  show ?case
  proof (cases "days = []")
    case True
    with 1(3) show ?thesis by (simp add: weeks_of.simps[of "[]"])
  next
    case False
    then have wk: "weeks_of days = take 7 days # weeks_of (drop 7 days)"
      by (subst weeks_of.simps) simp
    from False 1(2) have l: "7 \<le> length days"
      by (cases "length days < 7") auto
    then have m: "length (drop 7 days) mod 7 = 0"
      using 1(2) by (simp add: mod_eq_0_iff_dvd)
    show ?thesis
    proof (cases w)
      case 0
      with l show ?thesis unfolding wk by simp
    next
      case (Suc w')
      with 1(3) have "w' < length (weeks_of (drop 7 days))" unfolding wk by simp
      from 1(1)[OF False m this] Suc show ?thesis unfolding wk by simp
    qed
  qed
qed

lemma monthcalendar_week_length:
  "w < length (monthcalendar y m) \<Longrightarrow> length (monthcalendar y m ! w) = 7"
  unfolding monthcalendar_def by (rule weeks_of_full[OF itermonthdays_length])

lemma monthcalendar_cell_weekday:
  assumes "w < length (monthcalendar y m)" and "c < length (monthcalendar y m ! w)"
    and "monthcalendar y m ! w ! c = d" and "d \<noteq> 0"
  shows "weekday y m d = int c \<and> 1 \<le> d \<and> d \<le> snd (monthrange y m)"
proof -
  from weeks_of_cell[OF assms(1,2)[unfolded monthcalendar_def]] assms(3)
  have c: "c < 7" and p: "7 * w + c < length (itermonthdays y m)"
    and v: "itermonthdays y m ! (7 * w + c) = d"
    by (simp_all add: monthcalendar_def)
  from itermonthdays_nth[OF p v assms(4)]
  have e: "int (7 * w + c) = weekday y m 1 + d - 1" and d: "1 \<le> d" "d \<le> snd (monthrange y m)"
    by simp_all
  have "weekday y m d = int (7 * w + c) mod 7"
    unfolding e by (rule weekday_shift)
  also have "\<dots> = int c" using c by simp
  finally show ?thesis using d by simp
qed

lemma monthcalendar_has_day:
  assumes "1 \<le> d" and "d \<le> snd (monthrange y m)"
  shows "\<exists>w c. w < length (monthcalendar y m) \<and> c < length (monthcalendar y m ! w) \<and>
           monthcalendar y m ! w ! c = d"
proof -
  define p where "p = nat (weekday y m 1 + d - 1)"
  from itermonthdays_day[OF assms] have "p < length (itermonthdays y m)" "itermonthdays y m ! p = d"
    by (simp_all add: p_def)
  with weeks_of_nth[of p "itermonthdays y m"] show ?thesis
    unfolding monthcalendar_def by blast
qed

subsection \<open>The painting loops\<close>

lemma paint_day_at:
  "paint_day sc y m s w (c, d) t k =
     (if k = (w, c) \<and> d \<noteq> 0 \<and> in_sprint s \<lparr>year = y, month = m, day = d\<rparr>
      then map_option (paint_cell (the (map_of sc (Sprint s)))) (t k)
      else t k)"
  by (cases "t (w, c)")
     (auto simp: paint_day_def Let_def in_sprint_def paint_cell_def set_facecolor_def set_color_def)

lemma paint_week_at:
  "fold (paint_day sc y m s w) (enumerate n week) t (w', c') =
     (if w' = w \<and> n \<le> c' \<and> c' < n + length week \<and> week ! (c' - n) \<noteq> 0 \<and>
         in_sprint s \<lparr>year = y, month = m, day = week ! (c' - n)\<rparr>
      then map_option (paint_cell (the (map_of sc (Sprint s)))) (t (w', c'))
      else t (w', c'))"
proof (induction week arbitrary: n t)
  case Nil
  then show ?case by auto
next
  case (Cons d week)
  define t1 where "t1 = paint_day sc y m s w (n, d) t"
  have step: "fold (paint_day sc y m s w) (enumerate n (d # week)) t =
              fold (paint_day sc y m s w) (enumerate (Suc n) week) t1"
    by (simp add: t1_def)
  have t1k: "t1 (w', c') =
     (if (w', c') = (w, n) \<and> d \<noteq> 0 \<and> in_sprint s \<lparr>year = y, month = m, day = d\<rparr>
      then map_option (paint_cell (the (map_of sc (Sprint s)))) (t (w', c'))
      else t (w', c'))"
    unfolding t1_def by (rule paint_day_at)
  show ?case
  proof (cases "c' = n")
    case True
    then show ?thesis
      unfolding step Cons.IH[of "Suc n" t1] t1k by simp
  next
    case False
    then have "(d # week) ! (c' - n) = week ! (c' - Suc n)" if "n \<le> c'"
      using that by (simp add: nth_Cons')
    moreover have "(n \<le> c' \<and> c' < n + length (d # week)) = (Suc n \<le> c' \<and> c' < Suc n + length week)"
      using False by auto
    ultimately show ?thesis
      unfolding step Cons.IH[of "Suc n" t1] t1k using False by auto
  qed
qed

lemma paint_weeks_at:
  "fold (\<lambda>(week_idx, week) t. fold (paint_day sc y m s week_idx) (enumerate 0 week) t)
        (enumerate n cal) t (w', c') =
     (if n \<le> w' \<and> w' < n + length cal \<and> c' < length (cal ! (w' - n)) \<and>
         cal ! (w' - n) ! c' \<noteq> 0 \<and>
         in_sprint s \<lparr>year = y, month = m, day = cal ! (w' - n) ! c'\<rparr>
      then map_option (paint_cell (the (map_of sc (Sprint s)))) (t (w', c'))
      else t (w', c'))"
proof (induction cal arbitrary: n t)
  case Nil
  then show ?case by auto
next
  case (Cons week cal)
  define t1 where "t1 = fold (paint_day sc y m s n) (enumerate 0 week) t"
  have step: "fold (\<lambda>(week_idx, week) t. fold (paint_day sc y m s week_idx) (enumerate 0 week) t)
                (enumerate n (week # cal)) t =
              fold (\<lambda>(week_idx, week) t. fold (paint_day sc y m s week_idx) (enumerate 0 week) t)
                (enumerate (Suc n) cal) t1"
    by (simp add: t1_def)
  have t1k: "t1 (w', c') =
     (if w' = n \<and> 0 \<le> c' \<and> c' < 0 + length week \<and> week ! (c' - 0) \<noteq> 0 \<and>
         in_sprint s \<lparr>year = y, month = m, day = week ! (c' - 0)\<rparr>
      then map_option (paint_cell (the (map_of sc (Sprint s)))) (t (w', c'))
      else t (w', c'))"
    unfolding t1_def by (rule paint_week_at)
  show ?case
  proof (cases "w' = n")
    case True
    then show ?thesis
      unfolding step Cons.IH[of "Suc n" t1] t1k by simp
  next
    case False
    then have "(week # cal) ! (w' - n) = cal ! (w' - Suc n)" if "n \<le> w'"
      using that by (simp add: nth_Cons')
    moreover have "(n \<le> w' \<and> w' < n + length (week # cal)) = (Suc n \<le> w' \<and> w' < Suc n + length cal)"
      using False by auto
    ultimately show ?thesis
      unfolding step Cons.IH[of "Suc n" t1] t1k using False by auto
  qed
qed

lemma paint_sprint_at:
  assumes "w < length cal" and "c < length (cal ! w)" and "cal ! w ! c \<noteq> 0"
  shows "paint_sprint sc y m cal s t (Suc w, c) =
     (if in_sprint s \<lparr>year = y, month = m, day = cal ! w ! c\<rparr>
      then map_option (paint_cell (the (map_of sc (Sprint s)))) (t (Suc w, c))
      else t (Suc w, c))"
  using assms unfolding paint_sprint_def paint_weeks_at by simp

lemma paint_sprints_at:
  assumes "w < length cal" and "c < length (cal ! w)" and "cal ! w ! c \<noteq> 0"
  shows "paint_sprints sc y m cal df t (Suc w, c) =
           map_option (paint_steps sc \<lparr>year = y, month = m, day = cal ! w ! c\<rparr> df) (t (Suc w, c))"
  unfolding paint_sprints_def paint_steps_def
proof (induction df arbitrary: t)
  case Nil
  then show ?case by (simp add: option.map_ident)
next
  case (Cons s df)
  show ?case
    by (cases "t (Suc w, c)") (simp_all add: Cons.IH paint_sprint_at[OF assms])
qed

lemma paint_steps_append:
  "paint_steps sc D (xs @ ys) x = paint_steps sc D ys (paint_steps sc D xs x)"
  by (simp add: paint_steps_def)

lemma paint_steps_none:
  "\<forall>s\<in>set df. \<not> in_sprint s D \<Longrightarrow> paint_steps sc D df x = x"
  unfolding paint_steps_def by (induction df arbitrary: x) auto

lemma paint_steps_last:
  assumes "df = pre @ s # post" and "in_sprint s D" and "\<forall>s'\<in>set post. \<not> in_sprint s' D"
  shows "facecolor (paint_steps sc D df x) = RGBA (the (map_of sc (Sprint s)))"
proof -
  have "paint_steps sc D df x = paint_steps sc D post (paint_steps sc D [s] (paint_steps sc D pre x))"
    unfolding assms(1) using paint_steps_append[of sc D pre "[s] @ post" x]
      paint_steps_append[of sc D "[s]" post] by simp
  also have "\<dots> = paint_steps sc D [s] (paint_steps sc D pre x)"
    using assms(3) by (rule paint_steps_none)
  also have "\<dots> = paint_cell (the (map_of sc (Sprint s))) (paint_steps sc D pre x)"
    using assms(2) by (simp add: paint_steps_def)
  finally show ?thesis
    by (simp add: paint_cell_def)
qed

lemma paint_steps_label:
  "label (paint_steps sc D df x) = label x"
  unfolding paint_steps_def by (induction df arbitrary: x) (auto simp: paint_cell_def)

lemma paint_steps_text_color:
  "text_color (paint_steps sc D df x) =
     (if \<exists>s\<in>set df. in_sprint s D \<and> mean_rgb (the (map_of sc (Sprint s))) < 1 / 2
      then Named ''white'' else text_color x)"
  unfolding paint_steps_def
proof (induction df arbitrary: x rule: rev_induct)
  case Nil
  then show ?case by simp
next
  case (snoc s df)
  then show ?case
    by (auto simp: paint_cell_def)
qed

lemma style_header_fold_at:
  "w \<noteq> 0 \<Longrightarrow>
   fold (\<lambda>j t. set_facecolor (0, j) col (set_bold (0, j) t)) js t (w, c) = t (w, c)"
  by (induction js arbitrary: t) (simp_all add: set_facecolor_def set_bold_def)

lemma style_header_at: "style_header t (Suc w, c) = t (Suc w, c)"
  unfolding style_header_def by (rule style_header_fold_at) simp

lemma weekend_pair_at:
  "fold (\<lambda>day_idx t. if ct ! wi ! day_idx \<noteq> [] then set_facecolor (wi, day_idx) col t else t)
        [5, 6] t (w, c) =
     (if w = wi \<and> (c = 5 \<or> c = 6) \<and> ct ! wi ! c \<noteq> []
      then map_option (\<lambda>x. x\<lparr>facecolor := col\<rparr>) (t (w, c)) else t (w, c))"
  by (auto simp: set_facecolor_def)

lemma weekend_rows_at:
  "fold (\<lambda>wi t. fold (\<lambda>day_idx t. if ct ! wi ! day_idx \<noteq> []
                                    then set_facecolor (wi, day_idx) col t else t) [5, 6] t)
        ws t (w, c) =
     (if w \<in> set ws \<and> (c = 5 \<or> c = 6) \<and> ct ! w ! c \<noteq> []
      then map_option (\<lambda>x. x\<lparr>facecolor := col\<rparr>) (t (w, c)) else t (w, c))"
proof (induction ws arbitrary: t)
  case Nil
  then show ?case by simp
next
  case (Cons wi ws)
  define t1 where "t1 = fold (\<lambda>day_idx t. if ct ! wi ! day_idx \<noteq> []
                                    then set_facecolor (wi, day_idx) col t else t) [5, 6] t"
  have t1k: "t1 (w, c) =
     (if w = wi \<and> (c = 5 \<or> c = 6) \<and> ct ! wi ! c \<noteq> []
      then map_option (\<lambda>x. x\<lparr>facecolor := col\<rparr>) (t (w, c)) else t (w, c))"
    unfolding t1_def by (rule weekend_pair_at)
  have "fold (\<lambda>wi t. fold (\<lambda>day_idx t. if ct ! wi ! day_idx \<noteq> []
                                    then set_facecolor (wi, day_idx) col t else t) [5, 6] t)
        (wi # ws) t (w, c) =
      (if w \<in> set ws \<and> (c = 5 \<or> c = 6) \<and> ct ! w ! c \<noteq> []
      then map_option (\<lambda>x. x\<lparr>facecolor := col\<rparr>) (t1 (w, c)) else t1 (w, c))"
    using Cons.IH[of t1] by (simp add: t1_def)
  then show ?case
    unfolding t1k by (cases "t (w, c)") auto
qed

lemma highlight_weekends_at:
  "highlight_weekends ct t (w, c) =
     (if 1 \<le> w \<and> w < length ct \<and> (c = 5 \<or> c = 6) \<and> ct ! w ! c \<noteq> []
      then map_option (\<lambda>x. x\<lparr>facecolor := Named ''#f2f2f2''\<rparr>) (t (w, c)) else t (w, c))"
  unfolding highlight_weekends_def weekend_rows_at by simp

lemma str_nat_nonempty: "str_nat n \<noteq> []"
  by (subst str_nat.simps) simp

lemma str_nonempty: "str i \<noteq> []"
  by (simp add: str_def str_nat_nonempty)

lemma new_table_cell:
  assumes "w < length cal" and "c < length (cal ! w)" and "cal ! w ! c = d" and "d \<noteq> 0"
  shows "new_table (make_cell_text cal) (Suc w, c) =
           Some \<lparr>label = str d, bold = False, facecolor = Named ''w'', text_color = Named ''black''\<rparr>"
  using assms by (simp add: new_table_def make_cell_text_def)

lemma base_cell_at:
  assumes "w < length cal" and "c < length (cal ! w)" and "cal ! w ! c = d" and "d \<noteq> 0"
  shows "highlight_weekends (make_cell_text cal) (style_header (new_table (make_cell_text cal)))
           (Suc w, c) = Some (base_cell c d)"
proof -
  have "make_cell_text cal ! Suc w ! c = str d"
    using assms by (simp add: make_cell_text_def)
  then have ne: "make_cell_text cal ! Suc w ! c \<noteq> []"
    by (simp add: str_nonempty)
  have len: "Suc w < length (make_cell_text cal)"
    using assms(1) by (simp add: make_cell_text_def)
  show ?thesis
    unfolding highlight_weekends_at style_header_at new_table_cell[OF assms]
    using ne len by (simp add: base_cell_def)
qed

lemma draw_month_cell:
  assumes "w < length (monthcalendar y m)" and "c < length (monthcalendar y m ! w)"
    and "monthcalendar y m ! w ! c = d" and "d \<noteq> 0"
  shows "ax_table (draw_month df sc cols (i, (y, m))) (Suc w, c) =
           Some (paint_steps sc \<lparr>year = y, month = m, day = d\<rparr> df (base_cell c d))"
  using assms
  by (simp add: draw_month_def Let_def paint_sprints_at base_cell_at)

lemma figure_axes_drawn:
  assumes "generate_wall_calendar df = Inr (Some fig)" and "ax \<in> set (fig_axes fig)"
  shows "legend fig = sprint_colors_of (palette (length df)) df \<and>
         (\<exists>cols i. ax = draw_month df (legend fig) cols (i, ax_month ax))"
proof -
  from assms(1) have df: "df \<noteq> []"
    by (auto simp: generate_wall_calendar_def split: if_splits)
  define cols where "cols = min 3 (length (months_to_display df))"
  from assms(1) df have fig: "legend fig = sprint_colors_of (palette (length df)) df"
    "fig_axes fig = map (draw_month df (legend fig) cols) (enumerate 0 (months_to_display df))"
    by (auto simp: generate_wall_calendar_def Let_def cols_def split: if_splits)
  from assms(2) fig(2) obtain p where "ax = draw_month df (legend fig) cols p"
    by auto
  moreover have "ax_month (draw_month df (legend fig) cols p) = snd p"
    by (simp add: draw_month_def Let_def)
  ultimately have "ax = draw_month df (legend fig) cols (fst p, ax_month ax)"
    by simp
  with fig(1) show ?thesis by blast
qed

lemma rendered_day_cell:
  assumes "generate_wall_calendar df = Inr (Some fig)" and "ax \<in> set (fig_axes fig)"
    and "ax_month ax = (y, m)"
    and "w < length (monthcalendar y m)" and "c < length (monthcalendar y m ! w)"
    and "monthcalendar y m ! w ! c = d" and "d \<noteq> 0"
  shows "ax_table ax (Suc w, c) =
           Some (paint_steps (legend fig) \<lparr>year = y, month = m, day = d\<rparr> df (base_cell c d))"
proof -
  from figure_axes_drawn[OF assms(1,2)] assms(3) obtain cols i where
    "ax = draw_month df (legend fig) cols (i, (y, m))"
    by auto
  then show ?thesis
    using draw_month_cell[OF assms(4-7)] by simp
qed

subsection \<open>The colour dictionary\<close>

lemma sprint_colors_fold_other:
  "\<forall>s\<in>set df. Sprint s \<noteq> k \<Longrightarrow>
   map_of (fold (\<lambda>(i, row) d. AList.update (Sprint row) (colors ! i) d) (enumerate n df) al) k =
   map_of al k"
  by (induction df arbitrary: n al) (auto simp: update_conv')

lemma sprint_colors_fold_last:
  assumes "df = pre @ s # post" and "\<forall>s'\<in>set post. Sprint s' \<noteq> Sprint s"
  shows "map_of (fold (\<lambda>(i, row) d. AList.update (Sprint row) (colors ! i) d) (enumerate n df) al)
           (Sprint s) = Some (colors ! (n + length pre))"
proof -
  define al1 where
    "al1 = fold (\<lambda>(i, row) d. AList.update (Sprint row) (colors ! i) d) (enumerate n pre) al"
  define al2 where "al2 = AList.update (Sprint s) (colors ! (n + length pre)) al1"
  have "fold (\<lambda>(i, row) d. AList.update (Sprint row) (colors ! i) d) (enumerate n df) al =
        fold (\<lambda>(i, row) d. AList.update (Sprint row) (colors ! i) d)
          (enumerate (Suc (n + length pre)) post) al2"
    unfolding assms(1) enumerate_append_eq al1_def al2_def by simp
  then have "map_of (fold (\<lambda>(i, row) d. AList.update (Sprint row) (colors ! i) d)
                 (enumerate n df) al) (Sprint s) = map_of al2 (Sprint s)"
    using sprint_colors_fold_other[OF assms(2), of colors "Suc (n + length pre)" al2] by simp
  also have "\<dots> = Some (colors ! (n + length pre))"
    unfolding al2_def by (simp add: update_conv')
  finally show ?thesis .
qed

lemma sprint_colors_last:
  assumes "df = pre @ s # post" and "\<forall>s'\<in>set post. Sprint s' \<noteq> Sprint s"
  shows "map_of (sprint_colors_of colors df) (Sprint s) = Some (colors ! length pre)"
  unfolding sprint_colors_of_def
  using sprint_colors_fold_last[OF assms, of colors 0 "[]"] by simp

lemma sprint_colors_keys:
  "map fst (sprint_colors_of colors df) = rev (remdups (rev (map Sprint df)))"
  unfolding sprint_colors_of_def
proof (induction df rule: rev_induct)
  case Nil
  then show ?case by simp
next
  case (snoc s df)
  then show ?case
    by (simp add: enumerate_append_eq update_keys)
qed

lemma sprint_colors_distinct: "distinct (map fst (sprint_colors_of colors df))"
  by (simp add: sprint_colors_keys)

lemma sprint_colors_length: "length (sprint_colors_of colors df) = card (Sprint ` set df)"
proof -
  have "length (sprint_colors_of colors df) = length (map fst (sprint_colors_of colors df))"
    by simp
  also have "\<dots> = length (remdups (rev (map Sprint df)))"
    unfolding sprint_colors_keys by simp
  also have "\<dots> = card (set (rev (map Sprint df)))"
    by (rule length_remdups_card_conv)
  finally show ?thesis by simp
qed

lemma sprint_colors_defined:
  assumes "s \<in> set df"
  shows "\<exists>col. map_of (sprint_colors_of colors df) (Sprint s) = Some col"
proof -
  have "Sprint s \<in> set (map fst (sprint_colors_of colors df))"
    unfolding sprint_colors_keys using assms by simp
  then have "map_of (sprint_colors_of colors df) (Sprint s) \<noteq> None"
    by (simp add: map_of_eq_None_iff)
  then show ?thesis by blast
qed

lemma palette_length: "length (palette n) = n"
  by (simp add: palette_def linspace01_def)

text \<open>
  The rounding matters from 36 sprints on: the eighth of 36 sprints gets the second table
  entry (orange), where exact arithmetic, \<open>7 / 35 * 10 = 2\<close>, would select the third.
\<close>

lemma palette_36_7: "palette 36 ! 7 = (255 / 255, 127 / 255, 14 / 255, 1)"
proof -
  have "palette 36 ! 7 = tab10 (linspace01 36 ! 7)"
    by (simp add: palette_def linspace01_def)
  also have "linspace01 36 ! 7 = float64 (of_nat 7 * float64 (1 / of_nat (36 - 1)))"
    by (simp add: linspace01_def)
  also have "tab10 (float64 (of_nat 7 * float64 (1 / of_nat (36 - 1)))) =
             (255 / 255, 127 / 255, 14 / 255, 1)"
    by code_simp
  finally show ?thesis .
qed

subsection \<open>Covered days are displayed\<close>

lemma date_le_index:
  assumes "date_le a b" and "1 \<le> month a" "month a \<le> 12" "1 \<le> month b" "month b \<le> 12"
  shows "index_of_month (year a, month a) \<le> index_of_month (year b, month b)"
  using assms by (auto simp: date_le_def index_of_month_def)

lemma covered_month_displayed:
  assumes "valid_months df" and "s \<in> set df" and "in_sprint s D"
    and "1 \<le> month D" and "month D \<le> 12"
  shows "(year D, month D) \<in> set (months_to_display df)"
proof -
  from assms(2) have ne: "df \<noteq> []" by auto
  from assms(1) have vm: "\<forall>r\<in>set df. 1 \<le> month (Start_Date r) \<and> month (Start_Date r) \<le> 12 \<and>
                    1 \<le> month (End_Date r) \<and> month (End_Date r) \<le> 12"
    by (simp add: valid_months_def list_all_iff)
  from start_month_least[OF ne] obtain r1 where r1: "r1 \<in> set df"
    "start_month df = (year (Start_Date r1), month (Start_Date r1))"
    "\<forall>r'\<in>set df. date_le (Start_Date r1) (Start_Date r')"
    by blast
  from end_month_greatest[OF ne] obtain r2 where r2: "r2 \<in> set df"
    "end_month df = (year (End_Date r2), month (End_Date r2))"
    "\<forall>r'\<in>set df. date_le (End_Date r') (End_Date r2)"
    by blast
  from r1(3) assms(2,3) have "date_le (Start_Date r1) D"
    unfolding in_sprint_def by (blast intro: date_le_trans)
  with vm r1(1) assms(4,5)
  have lo: "index_of_month (start_month df) \<le> index_of_month (year D, month D)"
    unfolding r1(2) by (intro date_le_index) auto
  from r2(3) assms(2,3) have "date_le D (End_Date r2)"
    unfolding in_sprint_def by (blast intro: date_le_trans)
  with vm r2(1) assms(4,5)
  have hi: "index_of_month (year D, month D) \<le> index_of_month (end_month df)"
    unfolding r2(2) by (intro date_le_index) auto
  have "month_of_index (index_of_month (year D, month D)) = (year D, month D)"
    using month_of_index_inverse[OF assms(4,5), of "year D"] by (simp add: index_of_month_def)
  moreover have "index_of_month (year D, month D) \<in>
                   set [index_of_month (start_month df) .. index_of_month (end_month df)]"
    using lo hi by simp
  ultimately show ?thesis
    unfolding months_to_display_index[OF ne assms(1)] by force
qed

lemma overlapping_axes:
  assumes "generate_wall_calendar overlapping = Inr (Some fig)"
  shows "map ax_month (fig_axes fig) = [(2025, 3)]"
proof -
  have "months_to_display overlapping = [(2025, 3)]"
    by code_simp
  with figure_axes_months[OF assms] show ?thesis
    by simp
qed

lemma overlapping_figure:
  "\<exists>fig. generate_wall_calendar overlapping = Inr (Some fig) \<and>
         fig_axes fig \<noteq> [] \<and> ax_month (fig_axes fig ! 0) = (2025, 3)"
proof -
  have m: "months_to_display overlapping = [(2025, 3)]"
    by code_simp
  have "overlapping \<noteq> []" by (simp add: overlapping_def)
  with m obtain fig where f: "generate_wall_calendar overlapping = Inr (Some fig)"
    using figure_returned[of overlapping] by auto
  from overlapping_axes[OF f]
  have "fig_axes fig \<noteq> [] \<and> ax_month (fig_axes fig ! 0) = (2025, 3)"
    by (cases "fig_axes fig") auto
  with f show ?thesis by blast
qed

subsection \<open>The last sprint wins\<close>

text \<open>
  Claim C1. Let the data frame have valid months, let \<open>(y, m, d)\<close> be a calendar day, and
  let \<open>s\<close> be the last sprint of the data frame whose inclusive range covers the day (any
  number of earlier sprints may cover it too). Then \<^verbatim>\<open>generate_wall_calendar\<close> returns a
  figure, without error; the month is displayed, the day has a cell in the month's table,
  and every cell showing the day is filled with the colour that \<^verbatim>\<open>sprint_colors\<close> gives to
  the name of \<open>s\<close>, whatever the earlier sprints painted. When no later record reuses the
  name, that colour is the palette entry of \<open>s\<close> itself.
\<close>

theorem last_sprint_wins:
  assumes "valid_months df"
    and "1 \<le> m" and "m \<le> 12" and "1 \<le> d" and "d \<le> snd (monthrange y m)"
    and "df = pre @ s # post" and "in_sprint s \<lparr>year = y, month = m, day = d\<rparr>"
    and "\<forall>s'\<in>set post. \<not> in_sprint s' \<lparr>year = y, month = m, day = d\<rparr>"
  shows "\<exists>fig. generate_wall_calendar df = Inr (Some fig) \<and>
         (\<exists>ax\<in>set (fig_axes fig). ax_month ax = (y, m)) \<and>
         (\<exists>w c. w < length (monthcalendar y m) \<and> c < 7 \<and> monthcalendar y m ! w ! c = d) \<and>
         (\<forall>ax\<in>set (fig_axes fig). ax_month ax = (y, m) \<longrightarrow>
            (\<forall>w c. w < length (monthcalendar y m) \<and> c < 7 \<and> monthcalendar y m ! w ! c = d \<longrightarrow>
               (\<exists>cell col. ax_table ax (Suc w, c) = Some cell \<and> label cell = str d \<and>
                  map_of (legend fig) (Sprint s) = Some col \<and> facecolor cell = RGBA col))) \<and>
         ((\<forall>s'\<in>set post. Sprint s' \<noteq> Sprint s) \<longrightarrow>
            map_of (legend fig) (Sprint s) = Some (palette (length df) ! length pre))"
proof -
  from assms(6) have sdf: "s \<in> set df" by simp
  have "(year \<lparr>year = y, month = m, day = d\<rparr>, month \<lparr>year = y, month = m, day = d\<rparr>)
          \<in> set (months_to_display df)"
    by (rule covered_month_displayed[OF assms(1) sdf assms(7)]) (simp_all add: assms(2,3))
  then have disp: "(y, m) \<in> set (months_to_display df)"
    by simp
  then have "months_to_display df \<noteq> []"
    by auto
  moreover from sdf have "df \<noteq> []"
    by auto
  ultimately obtain fig where fig: "generate_wall_calendar df = Inr (Some fig)"
    using figure_returned[of df] by blast
  from fig have leg: "legend fig = sprint_colors_of (palette (length df)) df"
    by (auto simp: generate_wall_calendar_def Let_def split: if_splits)
  from sdf obtain col where col: "map_of (legend fig) (Sprint s) = Some col"
    unfolding leg using sprint_colors_defined by blast
  from disp have "(y, m) \<in> set (map ax_month (fig_axes fig))"
    unfolding figure_axes_months[OF fig] .
  then have shown: "\<exists>ax\<in>set (fig_axes fig). ax_month ax = (y, m)"
    by auto
  have ex: "\<exists>w c. w < length (monthcalendar y m) \<and> c < 7 \<and> monthcalendar y m ! w ! c = d"
    using monthcalendar_has_day[OF assms(4,5)] monthcalendar_week_length[of _ y m]
    by metis
  have cell: "\<exists>cell col. ax_table ax (Suc w, c) = Some cell \<and> label cell = str d \<and>
               map_of (legend fig) (Sprint s) = Some col \<and> facecolor cell = RGBA col"
    if ax: "ax \<in> set (fig_axes fig)" "ax_month ax = (y, m)"
      and wc: "w < length (monthcalendar y m) \<and> c < 7 \<and> monthcalendar y m ! w ! c = d"
    for ax w c
  proof -
    from wc have w: "w < length (monthcalendar y m)" and v: "monthcalendar y m ! w ! c = d"
      by simp_all
    from wc have c: "c < length (monthcalendar y m ! w)"
      by (simp add: monthcalendar_week_length)
    from assms(4) have d: "d \<noteq> 0" by simp
    have "ax_table ax (Suc w, c) =
            Some (paint_steps (legend fig) \<lparr>year = y, month = m, day = d\<rparr> df (base_cell c d))"
      by (rule rendered_day_cell[OF fig ax w c v d])
    moreover have "label (paint_steps (legend fig) \<lparr>year = y, month = m, day = d\<rparr> df (base_cell c d)) = str d"
      by (simp add: paint_steps_label base_cell_def)
    moreover have "facecolor (paint_steps (legend fig) \<lparr>year = y, month = m, day = d\<rparr> df (base_cell c d)) =
                     RGBA col"
      using paint_steps_last[OF assms(6,7,8)] col by simp
    ultimately show ?thesis using col by blast
  qed
  have own: "map_of (legend fig) (Sprint s) = Some (palette (length df) ! length pre)"
    if "\<forall>s'\<in>set post. Sprint s' \<noteq> Sprint s"
    unfolding leg using assms(6) that by (rule sprint_colors_last)
  show ?thesis
    using fig shown ex cell own by blast
qed

theorem last_sprint_wins_witness:
  "\<exists>fig ax cell. generate_wall_calendar overlapping = Inr (Some fig) \<and>
      valid_months overlapping \<and>
      overlapping =
        [\<lparr>Sprint = ''A'', Start_Date = \<lparr>year = 2025, month = 3, day = 10\<rparr>,
          End_Date = \<lparr>year = 2025, month = 3, day = 21\<rparr>\<rparr>] @
        \<lparr>Sprint = ''B'', Start_Date = \<lparr>year = 2025, month = 3, day = 17\<rparr>,
          End_Date = \<lparr>year = 2025, month = 3, day = 28\<rparr>\<rparr> # [] \<and>
      in_sprint \<lparr>Sprint = ''A'', Start_Date = \<lparr>year = 2025, month = 3, day = 10\<rparr>,
          End_Date = \<lparr>year = 2025, month = 3, day = 21\<rparr>\<rparr> \<lparr>year = 2025, month = 3, day = 17\<rparr> \<and>
      in_sprint \<lparr>Sprint = ''B'', Start_Date = \<lparr>year = 2025, month = 3, day = 17\<rparr>,
          End_Date = \<lparr>year = 2025, month = 3, day = 28\<rparr>\<rparr> \<lparr>year = 2025, month = 3, day = 17\<rparr> \<and>
      17 \<le> snd (monthrange 2025 3) \<and>
      ax \<in> set (fig_axes fig) \<and> ax_month ax = (2025, 3) \<and>
      monthcalendar 2025 3 ! 3 ! 0 = 17 \<and>
      ax_table ax (4, 0) = Some cell \<and> label cell = ''17'' \<and>
      facecolor cell = RGBA (23 / 255, 190 / 255, 207 / 255, 1)"
proof -
  define a where "a = \<lparr>Sprint = ''A'', Start_Date = \<lparr>year = 2025, month = 3, day = 10\<rparr>,
          End_Date = \<lparr>year = 2025, month = 3, day = 21\<rparr>\<rparr>"
  define b where "b = \<lparr>Sprint = ''B'', Start_Date = \<lparr>year = 2025, month = 3, day = 17\<rparr>,
          End_Date = \<lparr>year = 2025, month = 3, day = 28\<rparr>\<rparr>"
  have vm: "valid_months overlapping" by (simp add: overlapping_def valid_months_def)
  have m1: "(1::int) \<le> 3" and m12: "(3::int) \<le> 12" by simp_all
  have h4: "(1::int) \<le> 17" by simp
  have h5: "17 \<le> snd (monthrange 2025 3)" by code_simp
  have h6: "overlapping = [a] @ b # []" by (simp add: overlapping_def a_def b_def)
  have ia: "in_sprint a \<lparr>year = 2025, month = 3, day = 17\<rparr>"
    by (simp add: in_sprint_def a_def date_le_def)
  have h7: "in_sprint b \<lparr>year = 2025, month = 3, day = 17\<rparr>"
    by (simp add: in_sprint_def b_def date_le_def)
  have h8: "\<forall>s'\<in>set []. \<not> in_sprint s' \<lparr>year = 2025, month = 3, day = 17\<rparr>" by simp
  have mc: "monthcalendar 2025 3 ! 3 ! 0 = 17" by code_simp
  have w: "3 < length (monthcalendar 2025 3)" by code_simp
  from last_sprint_wins[OF vm m1 m12 h4 h5 h6 h7 h8] obtain fig where
    t: "generate_wall_calendar overlapping = Inr (Some fig) \<and>
        (\<exists>ax\<in>set (fig_axes fig). ax_month ax = (2025, 3)) \<and>
        (\<exists>w c. w < length (monthcalendar 2025 3) \<and> c < 7 \<and> monthcalendar 2025 3 ! w ! c = 17) \<and>
        (\<forall>ax\<in>set (fig_axes fig). ax_month ax = (2025, 3) \<longrightarrow>
            (\<forall>w c. w < length (monthcalendar 2025 3) \<and> c < 7 \<and> monthcalendar 2025 3 ! w ! c = 17 \<longrightarrow>
               (\<exists>cell col. ax_table ax (Suc w, c) = Some cell \<and> label cell = str 17 \<and>
                  map_of (legend fig) (Sprint b) = Some col \<and> facecolor cell = RGBA col))) \<and>
        ((\<forall>s'\<in>set ([] :: sprint list). Sprint s' \<noteq> Sprint b) \<longrightarrow>
            map_of (legend fig) (Sprint b) = Some (palette (length overlapping) ! length [a]))"
    ..
  note f = t[THEN conjunct1]
    and shown = t[THEN conjunct2, THEN conjunct1]
    and cells = t[THEN conjunct2, THEN conjunct2, THEN conjunct2, THEN conjunct1]
    and own = t[THEN conjunct2, THEN conjunct2, THEN conjunct2, THEN conjunct2]
  from shown obtain ax where ax: "ax \<in> set (fig_axes fig)" and am: "ax_month ax = (2025, 3)"
    by blast
  from cells ax am w mc obtain cell col where c: "ax_table ax (Suc 3, 0) = Some cell"
    "label cell = str 17" "map_of (legend fig) (Sprint b) = Some col" "facecolor cell = RGBA col"
    by (metis zero_less_numeral)
  from own have "map_of (legend fig) (Sprint b) = Some (palette (length overlapping) ! length [a])"
    by simp
  moreover have "palette (length overlapping) ! length [a] = (23 / 255, 190 / 255, 207 / 255, 1)"
    by code_simp
  ultimately have col: "col = (23 / 255, 190 / 255, 207 / 255, 1)"
    using c(3) by simp
  have s17: "str 17 = ''17''" by code_simp
  have four: "Suc 3 = 4" by simp
  show ?thesis
    using f vm h6 ia h7 h5 ax am mc c(1,2,4) unfolding col s17 four a_def b_def
    by blast
qed

subsection \<open>Weekend cells\<close>

text \<open>
  Claim C9. In every displayed month, the cell of a day that falls on a Saturday or a
  Sunday (weekday 5 or 6) and that no sprint covers keeps the weekend fill
  \<^verbatim>\<open>#f2f2f2\<close>, with its day number and the default text colour.
\<close>

theorem weekend_fill_kept:
  assumes "generate_wall_calendar df = Inr (Some fig)" and "ax \<in> set (fig_axes fig)"
    and "ax_month ax = (y, m)"
    and "w < length (monthcalendar y m)" and "c < 7"
    and "monthcalendar y m ! w ! c = d" and "d \<noteq> 0"
    and "weekday y m d = 5 \<or> weekday y m d = 6"
    and "\<forall>s\<in>set df. \<not> in_sprint s \<lparr>year = y, month = m, day = d\<rparr>"
  shows "ax_table ax (Suc w, c) =
           Some \<lparr>label = str d, bold = False, facecolor = Named ''#f2f2f2'',
                  text_color = Named ''black''\<rparr>"
proof -
  from assms(4,5) have c: "c < length (monthcalendar y m ! w)"
    by (simp add: monthcalendar_week_length)
  from monthcalendar_cell_weekday[OF assms(4) c assms(6,7)] assms(8)
  have "c = 5 \<or> c = 6" by auto
  then have "base_cell c d = \<lparr>label = str d, bold = False, facecolor = Named ''#f2f2f2'',
                  text_color = Named ''black''\<rparr>"
    by (auto simp: base_cell_def)
  with rendered_day_cell[OF assms(1,2,3,4) c assms(6,7)] paint_steps_none[OF assms(9)]
  show ?thesis by simp
qed

theorem weekend_fill_kept_witness:
  "\<exists>fig. generate_wall_calendar overlapping = Inr (Some fig) \<and>
      monthcalendar 2025 3 ! 0 ! 5 = 1 \<and> weekday 2025 3 1 = 5 \<and>
      list_all (\<lambda>s. \<not> in_sprint s \<lparr>year = 2025, month = 3, day = 1\<rparr>) overlapping \<and>
      ax_table (fig_axes fig ! 0) (1, 5) =
        Some \<lparr>label = ''1'', bold = False, facecolor = Named ''#f2f2f2'',
               text_color = Named ''black''\<rparr>"
proof -
  from overlapping_figure obtain fig where f: "generate_wall_calendar overlapping = Inr (Some fig)"
    and ne: "fig_axes fig \<noteq> []" and am: "ax_month (fig_axes fig ! 0) = (2025, 3)"
    by blast
  from ne have ax: "fig_axes fig ! 0 \<in> set (fig_axes fig)" by simp
  have w: "0 < length (monthcalendar 2025 3)" by code_simp
  have c: "(5::nat) < 7" by simp
  have mc: "monthcalendar 2025 3 ! 0 ! 5 = 1" by code_simp
  have d: "(1::int) \<noteq> 0" by simp
  have wd: "weekday 2025 3 1 = 5" by code_simp
  have la: "list_all (\<lambda>s. \<not> in_sprint s \<lparr>year = 2025, month = 3, day = 1\<rparr>) overlapping"
    by (simp add: overlapping_def in_sprint_def date_le_def)
  then have no: "\<forall>s\<in>set overlapping. \<not> in_sprint s \<lparr>year = 2025, month = 3, day = 1\<rparr>"
    by (simp add: list_all_iff)
  have s1: "str 1 = ''1''" by code_simp
  have "ax_table (fig_axes fig ! 0) (Suc 0, 5) =
        Some \<lparr>label = str 1, bold = False, facecolor = Named ''#f2f2f2'',
               text_color = Named ''black''\<rparr>"
    by (rule weekend_fill_kept[OF f ax am w c mc d disjI1[OF wd] no])
  then have r: "ax_table (fig_axes fig ! 0) (1, 5) =
        Some \<lparr>label = ''1'', bold = False, facecolor = Named ''#f2f2f2'',
               text_color = Named ''black''\<rparr>"
    unfolding s1 by simp
  show ?thesis
    by (intro exI[of _ fig] conjI f mc wd la r)
qed

subsection \<open>One colour per sprint name\<close>

text \<open>
  Claim C10. In a returned figure the colour of a sprint name is the palette entry of the
  last record with that name; every paint by a record of that name uses this colour; and
  the legend has exactly one entry per distinct name, in order of first appearance.
\<close>

theorem one_color_per_name:
  assumes "generate_wall_calendar df = Inr (Some fig)"
    and "df = pre @ s # post" and "\<forall>s'\<in>set post. Sprint s' \<noteq> Sprint s"
  shows "map_of (legend fig) (Sprint s) = Some (palette (length df) ! length pre) \<and>
         (\<forall>r\<in>set df. Sprint r = Sprint s \<longrightarrow>
            (\<forall>y m w c d t x. d \<noteq> 0 \<and> in_sprint r \<lparr>year = y, month = m, day = d\<rparr> \<and>
                 t (w, c) = Some x \<longrightarrow>
               paint_day (legend fig) y m r w (c, d) t (w, c) =
                 Some (paint_cell (palette (length df) ! length pre) x))) \<and>
         map fst (legend fig) = rev (remdups (rev (map Sprint df))) \<and>
         distinct (map fst (legend fig)) \<and>
         length (legend fig) = card (Sprint ` set df)"
proof -
  from assms(1) have leg: "legend fig = sprint_colors_of (palette (length df)) df"
    by (auto simp: generate_wall_calendar_def Let_def split: if_splits)
  have col: "map_of (legend fig) (Sprint s) = Some (palette (length df) ! length pre)"
    unfolding leg using assms(2,3) by (rule sprint_colors_last)
  have paint: "paint_day (legend fig) y m r w (c, d) t (w, c) =
                 Some (paint_cell (palette (length df) ! length pre) x)"
    if "Sprint r = Sprint s" and "d \<noteq> 0 \<and> in_sprint r \<lparr>year = y, month = m, day = d\<rparr> \<and> t (w, c) = Some x"
    for r y m w c d t x
    using that col by (simp add: paint_day_at)
  show ?thesis
    using col paint sprint_colors_keys[of "palette (length df)" df]
      sprint_colors_distinct[of "palette (length df)" df]
      sprint_colors_length[of "palette (length df)" df]
    unfolding leg[symmetric] by blast
qed

lemma same_names_figure:
  "\<exists>fig. generate_wall_calendar same_names = Inr (Some fig)"
proof -
  have m: "months_to_display same_names = [(2025, 3)]"
    by code_simp
  have "same_names \<noteq> []" by (simp add: same_names_def)
  with m show ?thesis
    using figure_returned[of same_names] by auto
qed

theorem one_color_per_name_witness:
  "\<exists>fig. generate_wall_calendar same_names = Inr (Some fig) \<and>
      map Sprint same_names = [''A'', ''B'', ''A''] \<and>
      map_of (legend fig) ''A'' = Some (23 / 255, 190 / 255, 207 / 255, 1) \<and>
      map fst (legend fig) = [''A'', ''B''] \<and>
      length (legend fig) = 2"
proof -
  define a1 where "a1 = \<lparr>Sprint = ''A'', Start_Date = \<lparr>year = 2025, month = 3, day = 3\<rparr>,
       End_Date = \<lparr>year = 2025, month = 3, day = 7\<rparr>\<rparr>"
  define b where "b = \<lparr>Sprint = ''B'', Start_Date = \<lparr>year = 2025, month = 3, day = 10\<rparr>,
       End_Date = \<lparr>year = 2025, month = 3, day = 14\<rparr>\<rparr>"
  define a2 where "a2 = \<lparr>Sprint = ''A'', Start_Date = \<lparr>year = 2025, month = 3, day = 17\<rparr>,
       End_Date = \<lparr>year = 2025, month = 3, day = 21\<rparr>\<rparr>"
  from same_names_figure obtain fig where f: "generate_wall_calendar same_names = Inr (Some fig)"
    by blast
  have h2: "same_names = [a1, b] @ a2 # []"
    by (simp add: same_names_def a1_def b_def a2_def)
  have h3: "\<forall>s'\<in>set []. Sprint s' \<noteq> Sprint a2" by simp
  note t = one_color_per_name[OF f h2 h3]
  have names: "map Sprint same_names = [''A'', ''B'', ''A'']"
    by (simp add: same_names_def)
  have p: "palette (length same_names) ! length [a1, b] = (23 / 255, 190 / 255, 207 / 255, 1)"
    by code_simp
  from t have "map_of (legend fig) (Sprint a2) = Some (palette (length same_names) ! length [a1, b])"
    by (rule conjunct1)
  then have c1: "map_of (legend fig) ''A'' = Some (23 / 255, 190 / 255, 207 / 255, 1)"
    unfolding p by (simp add: a2_def)
  from t have "map fst (legend fig) = rev (remdups (rev (map Sprint same_names)))"
    by blast
  then have c2: "map fst (legend fig) = [''A'', ''B'']"
    unfolding names by simp
  then have c3: "length (legend fig) = 2"
    using length_map[of fst "legend fig"] by simp
  show ?thesis
    by (intro exI[of _ fig] conjI f names c1 c2 c3)
qed

subsection \<open>The text colour after an overwrite\<close>

text \<open>
  Claim C2. The code sets the text colour to white on every paint with a dark colour and
  never sets it back, so the text is white as soon as one covering sprint is dark
  (\<open>paint_steps_text_color\<close> above). For two overlapping sprints, whose palette colours are
  tab10's blue (dark) and cyan (light), the cell of 17 March 2025 ends up cyan with white
  text, while the check applied once to the winning colour gives the default dark text.
\<close>

theorem stale_white_text:
  "\<exists>fig cell. generate_wall_calendar overlapping = Inr (Some fig) \<and>
      map ax_month (fig_axes fig) = [(2025, 3)] \<and> monthcalendar 2025 3 ! 3 ! 0 = 17 \<and>
      ax_table (fig_axes fig ! 0) (4, 0) = Some cell \<and> label cell = ''17'' \<and>
      facecolor cell = RGBA (23 / 255, 190 / 255, 207 / 255, 1) \<and>
      mean_rgb (23 / 255, 190 / 255, 207 / 255, 1) = 28 / 51 \<and>
      text_color cell = Named ''white'' \<and>
      text_color_once (legend fig) \<lparr>year = 2025, month = 3, day = 17\<rparr> overlapping = Named ''black''"
proof -
  from overlapping_figure obtain fig where f: "generate_wall_calendar overlapping = Inr (Some fig)"
    and ne: "fig_axes fig \<noteq> []" and am: "ax_month (fig_axes fig ! 0) = (2025, 3)"
    by blast
  note ms = overlapping_axes[OF f]
  from ne have ax: "fig_axes fig ! 0 \<in> set (fig_axes fig)" by simp
  have leg: "legend fig = sprint_colors_of (palette (length overlapping)) overlapping"
    using figure_axes_drawn[OF f ax] by simp
  have legv: "legend fig = [(''A'', (31 / 255, 119 / 255, 180 / 255, 1)),
                            (''B'', (23 / 255, 190 / 255, 207 / 255, 1))]"
    unfolding leg by code_simp
  have w: "3 < length (monthcalendar 2025 3)" by code_simp
  have c: "0 < length (monthcalendar 2025 3 ! 3)" by code_simp
  have mc: "monthcalendar 2025 3 ! 3 ! 0 = 17" by code_simp
  have d: "(17::int) \<noteq> 0" by simp
  have cell: "ax_table (fig_axes fig ! 0) (Suc 3, 0) =
          Some (paint_steps (legend fig) \<lparr>year = 2025, month = 3, day = 17\<rparr> overlapping (base_cell 0 17))"
    by (rule rendered_day_cell[OF f ax am w c mc d])
  have v: "paint_steps (legend fig) \<lparr>year = 2025, month = 3, day = 17\<rparr> overlapping (base_cell 0 17) =
           \<lparr>label = ''17'', bold = False, facecolor = RGBA (23 / 255, 190 / 255, 207 / 255, 1),
            text_color = Named ''white''\<rparr>"
    unfolding legv by code_simp
  have once: "text_color_once (legend fig) \<lparr>year = 2025, month = 3, day = 17\<rparr> overlapping = Named ''black''"
    unfolding legv by code_simp
  have mean: "mean_rgb (23 / 255, 190 / 255, 207 / 255, 1) = 28 / 51"
    by simp
  have four: "Suc 3 = 4" by simp
  from cell have cell4: "ax_table (fig_axes fig ! 0) (4, 0) =
      Some \<lparr>label = ''17'', bold = False, facecolor = RGBA (23 / 255, 190 / 255, 207 / 255, 1),
            text_color = Named ''white''\<rparr>"
    unfolding v four .
  show ?thesis
    using f ms mc cell4 mean once by simp
qed

end
